theory Spec2Isabelle
  imports Main "HOL-Library.Word"
begin

unbundle bit_operations_syntax

chapter \<open>RS41 radiosonde framer and frame decoder\<close>

text \<open>
  A shallow embedding of \<^verbatim>\<open>src/decode/framer.cpp\<close> (the bit-synchronising framer) and
  \<^verbatim>\<open>src/decode/rs41/decoder.cpp\<close> (the RS41 frame decoder).  Bytes are \<open>8 word\<close>, the
  correlation window is a \<open>64 word\<close>, buffers are byte lists, and the members of the C++
  objects are passed and returned explicitly.  The first part holds the definitions, the
  second part the lemmas and theorems about them.
\<close>

type_synonym u8 = "8 word"
type_synonym u16 = "16 word"
type_synonym u64 = "64 word"

section \<open>Definitions: memory\<close>

text \<open>
  \<^verbatim>\<open>memcpy(dst + off, src, n)\<close> on a buffer that is a byte list.  A copy that reaches
  behind the end of the buffer is a write to memory that is not the buffer's.  C++ gives
  such a write no defined effect; the result is \<open>None\<close> then.
\<close>

definition memcpy_at :: "u8 list \<Rightarrow> nat \<Rightarrow> u8 list \<Rightarrow> nat \<Rightarrow> u8 list option" where
  "memcpy_at dst off src n =
     (if off + n \<le> length dst then Some (fold (\<lambda>i d. d[off + i := src ! i]) [0..<n] dst)
      else None)"

section \<open>Definitions: the correlator of the framer\<close>

subsection \<open>\<^verbatim>\<open>inverseCorrelateU64\<close>\<close>

text \<open>
  The number of bits that differ between two 64-bit values.  The source clears the lowest
  set bit of \<open>v = x ^ y\<close> until nothing is left (\<^verbatim>\<open>for (corr = 0; v; corr++) v &= v-1;\<close>).
  Each round makes \<open>v\<close> smaller, which is the termination argument.
\<close>

function popcount_loop :: "u64 \<Rightarrow> int \<Rightarrow> int" where
  "popcount_loop v corr = (if v = 0 then corr else popcount_loop (v AND (v - 1)) (corr + 1))"
  by pat_completeness auto
termination
proof (relation "measure (\<lambda>(v, corr). unat v)")
  show "wf (measure (\<lambda>(v, corr). unat v))" by simp
next
  fix v :: u64 and corr :: int
  assume nz: "v \<noteq> 0"
  have "unat (v AND (v - 1)) \<le> unat (v - 1)"
    by (rule word_and_le1 [THEN word_le_nat_alt [THEN iffD1]])
  also have "unat (v - 1) = unat v - 1"
    using nz by (simp add: unat_minus_one)
  also have "\<dots> < unat v"
    using nz by (simp add: unat_gt_0)
  finally show "((v AND (v - 1), corr + 1), (v, corr)) \<in> measure (\<lambda>(v, corr). unat v)"
    by simp
qed

declare popcount_loop.simps [simp del]

definition inverseCorrelateU64 :: "u64 \<Rightarrow> u64 \<Rightarrow> int" where
  "inverseCorrelateU64 x y = popcount_loop (x XOR y) 0"

subsection \<open>\<^verbatim>\<open>Framer::correlateU64\<close>\<close>

text \<open>
  The local variables of the search.  \<open>inverted\<close> is the caller's \<^verbatim>\<open>int\<close> that the source
  writes through the pointer \<^verbatim>\<open>int *inverted\<close>; the function never initialises it, so its value
  on entry is an argument of the model.
\<close>

record corr_state =
  window :: u64
  bestCorr :: int
  bestOffset :: int
  inverted :: int

text \<open>
  \<^verbatim>\<open>syncMask = (_syncLen < 8) ? ((1ULL << (8*_syncLen))) : ~0ULL\<close>, as the source has it.
\<close>

definition syncMask_of :: "nat \<Rightarrow> u64" where
  "syncMask_of syncLen = (if syncLen < 8 then push_bit (8 * syncLen) 1 else NOT 0)"

text \<open>
  One round of the inner loop (\<^verbatim>\<open>for (j=0; j<8; j++)\<close>) for byte \<open>i\<close> of the search, where
  \<open>tmp\<close> is the byte that is being shifted into the window.
\<close>

definition bit_step :: "nat \<Rightarrow> u64 \<Rightarrow> u64 \<Rightarrow> nat \<Rightarrow> u8 \<Rightarrow> nat \<Rightarrow> corr_state \<Rightarrow> corr_state" where
  "bit_step syncLen syncWord syncMask i tmp j s =
     (let corr = inverseCorrelateU64 syncWord (window s AND syncMask);
          s1 = (if corr < bestCorr s
                then s\<lparr>bestCorr := corr, bestOffset := int (i * 8 + j), inverted := 0\<rparr>
                else s);
          corr' = int syncLen * 8 - corr;
          s2 = (if corr' < bestCorr s1
                then s1\<lparr>bestCorr := corr', bestOffset := int (i * 8 + j), inverted := 1\<rparr>
                else s1)
      in s2\<lparr>window := push_bit 1 (window s2) OR ucast (drop_bit (7 - j) tmp AND 1)\<rparr>)"

text \<open>One round of the outer loop: \<^verbatim>\<open>tmp = *frame++\<close>, then the eight bit rounds.\<close>

definition byte_loop :: "nat \<Rightarrow> u64 \<Rightarrow> u64 \<Rightarrow> u8 list \<Rightarrow> nat \<Rightarrow> corr_state \<Rightarrow> corr_state" where
  "byte_loop syncLen syncWord syncMask frame i s =
     fold (bit_step syncLen syncWord syncMask i (frame ! (syncLen + i))) [0..<8] s"

text \<open>
  \<^verbatim>\<open>correlateU64(int *inverted, uint8_t *frame, int len)\<close> with the members \<^verbatim>\<open>_syncWord\<close> and
  \<^verbatim>\<open>_syncLen\<close> as arguments.  The result is the returned offset and the value of
  \<^verbatim>\<open>*inverted\<close> on return.  The bytes \<open>frame ! i\<close> are read for \<open>i < max len syncLen\<close>; the
  theorems below assume that the buffer is that long.
\<close>

definition correlateU64 :: "u64 \<Rightarrow> nat \<Rightarrow> int \<Rightarrow> u8 list \<Rightarrow> nat \<Rightarrow> int \<times> int" where
  "correlateU64 syncWord0 syncLen inverted0 frame len =
     (let syncMask = syncMask_of syncLen;
          syncWord = syncWord0 AND syncMask;
          window0 = fold (\<lambda>i w. push_bit 8 w OR ucast (frame ! i)) [0..<syncLen] 0;
          bestCorr0 = inverseCorrelateU64 syncWord (window0 AND syncMask)
      in if bestCorr0 = 0 then (0, inverted0)
         else let s = fold (byte_loop syncLen syncWord syncMask frame) [0..<len - syncLen]
                        \<lparr>window = window0, bestCorr = bestCorr0,
                         bestOffset = 0, inverted = inverted0\<rparr>
              in (bestOffset s, inverted s))"

subsection \<open>The bit stream of a buffer\<close>

text \<open>
  The reference notions the theorems about the correlator are stated with: the bits of a
  buffer in transmission order (most significant bit of each byte first), and the 64-bit
  value that the 64 bits from bit offset \<open>k\<close> on spell.
\<close>

definition byte_bits :: "u8 \<Rightarrow> bool list" where
  "byte_bits b = map (\<lambda>j. bit b (7 - j)) [0..<8]"

definition frame_bits :: "u8 list \<Rightarrow> bool list" where
  "frame_bits frame = concat (map byte_bits frame)"

definition shift_in :: "u64 \<Rightarrow> bool \<Rightarrow> u64" where
  "shift_in w b = push_bit 1 w OR of_bool b"

definition bits_val :: "bool list \<Rightarrow> u64" where
  "bits_val bs = foldl shift_in 0 bs"

definition window_at :: "u8 list \<Rightarrow> nat \<Rightarrow> u64" where
  "window_at frame k = bits_val (take 64 (drop k (frame_bits frame)))"

text \<open>
  The rounds of the two nested loops in one sequence, for an 8-byte sync word: round \<open>t\<close>
  is round \<open>j = t mod 8\<close> of byte \<open>i = t div 8\<close>.
\<close>

definition flat_step :: "u64 \<Rightarrow> u8 list \<Rightarrow> nat \<Rightarrow> corr_state \<Rightarrow> corr_state" where
  "flat_step sw frame t = bit_step 8 sw (- 1) (t div 8) (frame ! (8 + t div 8)) (t mod 8)"

text \<open>The number of one bits of a natural number, to count with.\<close>

fun pcn :: "nat \<Rightarrow> nat" where
  "pcn n = (if n = 0 then 0 else n mod 2 + pcn (n div 2))"

declare pcn.simps [simp del]




section \<open>Definitions: the state machine of the framer\<close>

subsection \<open>Bits and bytes\<close>

text \<open>The byte that eight bits spell, and the bytes of a bit list whose length is a multiple of 8.\<close>

definition byte_shift_in :: "u8 \<Rightarrow> bool \<Rightarrow> u8" where
  "byte_shift_in w b = push_bit 1 w OR of_bool b"

definition byte_of_bits :: "bool list \<Rightarrow> u8" where
  "byte_of_bits bs = foldl byte_shift_in 0 bs"

definition bytes_of_bits :: "bool list \<Rightarrow> u8 list" where
  "bytes_of_bits bs = map (\<lambda>i. byte_of_bits (take 8 (drop (8 * i) bs))) [0..<length bs div 8]"


definition bitpack :: "u8 list \<Rightarrow> nat \<Rightarrow> nat \<Rightarrow> nat \<Rightarrow> nat \<Rightarrow> u8 list" where
  "bitpack buf dst src bit_offset nbits =
     (let bs = frame_bits buf
      in bytes_of_bits (take (8 * dst + bit_offset) bs @ take nbits (drop (8 * src) bs)
                          @ drop (8 * dst + bit_offset + nbits) bs))"

definition CEILDIV :: "nat \<Rightarrow> nat \<Rightarrow> nat" where
  "CEILDIV x y = (x + (y - 1)) div y"

subsection \<open>\<^verbatim>\<open>Framer::init\<close> and \<^verbatim>\<open>Framer::run\<close>\<close>

datatype framer_phase = READ | DEOFFSET

record framer =
  m_syncWord :: u64
  m_syncLen :: nat
  m_frameLen :: nat
  m_rawData :: "u8 list"
  m_state :: framer_phase
  m_dataOffset :: nat
  m_syncOffset :: nat


text \<open>
  The block that both cases of the switch start with, for the \<^verbatim>\<open>numBytes\<close> bytes that it
  takes from the input: the \<^verbatim>\<open>memcpy\<close> behind the bytes that are in use, the \<^verbatim>\<open>bitpack\<close>
  when the cursor is not at a byte boundary, and the new cursor.  The result is \<open>None\<close>
  when the copy reaches behind the end of \<^verbatim>\<open>_rawData\<close>.
\<close>

definition read_bytes :: "framer \<Rightarrow> u8 list \<Rightarrow> framer option" where
  "read_bytes fr bytes =
     (let D = m_dataOffset fr;
          numBytes = length bytes
      in case memcpy_at (m_rawData fr) (CEILDIV D 8) bytes numBytes of
           None \<Rightarrow> None
         | Some raw1 \<Rightarrow>
             (let raw2 = (if D mod 8 \<noteq> 0
                          then bitpack raw1 (D div 8) (CEILDIV D 8) (D mod 8) (numBytes * 8)
                          else raw1)
              in Some (fr\<lparr>m_rawData := raw2, m_dataOffset := D + 8 * numBytes\<rparr>)))"







subsection \<open>The framer as a machine on the bits collected so far\<close>







section \<open>Definitions: the RS41 frame decoder\<close>

subsection \<open>Constants, layouts and external functions\<close>

text \<open>
  \<^verbatim>\<open>rs41.h\<close>, \<^verbatim>\<open>decoder.hpp\<close>, \<^verbatim>\<open>utils.h\<close> and \<^verbatim>\<open>ecef.h\<close> are not among the sources, so
  the constants and struct layouts they declare are parameters of the model.  A frame is
  the byte sequence of an \<^verbatim>\<open>RS41Frame\<close>; its members are reached through their offsets.
\<close>

record rs41_consts =
  RS41_DATA_LEN :: nat
  RS41_XDATA_LEN :: nat
  RS41_FLAG_EXTENDED :: u8
  RS41_REEDSOLOMON_INTERLEAVING :: nat
  RS41_REEDSOLOMON_N :: nat
  RS41_REEDSOLOMON_K :: nat
  RS41_REEDSOLOMON_T :: nat
  RS41_CALIB_FRAGCOUNT :: nat
  RS41_CALIB_FRAGSIZE :: nat
  RS41_SFTYPE_INFO :: u8
  RS41_SFTYPE_GPSPOS :: u8
  sizeof_RS41Frame :: nat
  sizeof_calibDataBitmap :: nat
  offsetof_rs_checksum :: nat
  offsetof_extended_flag :: nat

text \<open>
  Modelled from the spec: the offset of \<^verbatim>\<open>data\<close> in \<^verbatim>\<open>RS41Frame\<close>, whose declaration is
  missing.  The binary frame schema has one flag byte and then the data bytes, so
  \<^verbatim>\<open>frame->data[-1]\<close> is the flag byte.
\<close>

definition offsetof_data :: "rs41_consts \<Rightarrow> nat" where
  "offsetof_data c = offsetof_extended_flag c + 1"

text \<open>
  The members of \<^verbatim>\<open>RS41Subframe_Status\<close>, \<^verbatim>\<open>RS41Subframe_GPSPos\<close> and \<^verbatim>\<open>RS41Calibration\<close>
  that the decoder reads.  Each reader takes the data region of the frame and the offset
  of the sub-record in it (the calibration reader takes the calibration buffer).
\<close>

record rs41_layout =
  status_frame_seq :: "u8 list \<Rightarrow> nat \<Rightarrow> nat"
  status_serial :: "u8 list \<Rightarrow> nat \<Rightarrow> u8 list"
  status_frag_seq :: "u8 list \<Rightarrow> nat \<Rightarrow> nat"
  status_frag_data :: "u8 list \<Rightarrow> nat \<Rightarrow> u8 list"
  gpspos_xyz :: "u8 list \<Rightarrow> nat \<Rightarrow> int \<times> int \<times> int"
  gpspos_dxyz :: "u8 list \<Rightarrow> nat \<Rightarrow> int \<times> int \<times> int"
  calib_burstkill_timer :: "u8 list \<Rightarrow> nat"

text \<open>
  The functions of other modules: the Reed-Solomon decoder of libcorrect (with the
  \<^verbatim>\<open>_rs\<close> handle applied; it returns a status, negative on failure, and the new contents of
  the block, which the source has it write in place), the division by \<^verbatim>\<open>100.0\<close> and the two
  coordinate conversions.  Floating-point values are of an abstract type \<open>'r\<close>.
\<close>

record 'r rs41_extern =
  correct_reed_solomon_decode :: "u8 list \<Rightarrow> int \<times> u8 list"
  div100 :: "int \<Rightarrow> 'r"
  ecef_to_lla :: "'r \<Rightarrow> 'r \<Rightarrow> 'r \<Rightarrow> 'r \<times> 'r \<times> 'r"
  ecef_to_spd_hdg :: "'r \<Rightarrow> 'r \<Rightarrow> 'r \<Rightarrow> 'r \<Rightarrow> 'r \<Rightarrow> 'r \<times> 'r \<times> 'r"

text \<open>The telemetry record handed to the handler.\<close>

record 'r SondeData =
  calibrated :: bool
  serial :: "u8 list"
  burstkill :: int
  seq :: nat
  lat :: 'r
  lon :: 'r
  alt :: 'r
  spd :: 'r
  hdg :: 'r
  climb :: 'r

text \<open>
  The members of the decoder that outlive a frame.  \<open>m_overrun\<close> is not a member of
  the class: it is set once \<^verbatim>\<open>updateCalibData\<close> has written outside \<^verbatim>\<open>_calibData\<close> or
  \<^verbatim>\<open>_calibDataBitmap\<close>.  What such a write does to the object is not defined, so the
  other fields stand for the members of the object only as long as \<open>m_overrun\<close> is
  clear.
\<close>

record decoder_state =
  m_calibData :: "u8 list"
  m_calibDataBitmap :: "u8 list"
  m_calibrated :: bool
  m_overrun :: bool

subsection \<open>\<^verbatim>\<open>RS41Decoder::init\<close>: the fragment bitmap\<close>

text \<open>
  \<^verbatim>\<open>memset(_calibDataBitmap, 0xFF, sizeof(_calibDataBitmap));\<close>
  \<^verbatim>\<open>_calibDataBitmap[sizeof(_calibDataBitmap)-1] &= ~(1 << (7 - RS41_CALIB_FRAGCOUNT%8)) - 1;\<close>
  The right-hand side is an \<^verbatim>\<open>int\<close>: the complement binds tighter than the subtraction.
\<close>

definition init_last_mask :: "rs41_consts \<Rightarrow> int" where
  "init_last_mask c = NOT (push_bit (7 - RS41_CALIB_FRAGCOUNT c mod 8) 1) - 1"

definition init :: "rs41_consts \<Rightarrow> decoder_state \<Rightarrow> decoder_state" where
  "init c st =
     (let n = sizeof_calibDataBitmap c;
          bm = replicate n (0xFF :: u8)
      in st\<lparr>m_calibDataBitmap := bm[n - 1 := (bm ! (n - 1)) AND word_of_int (init_last_mask c)]\<rparr>)"

subsection \<open>\<^verbatim>\<open>RS41Decoder::updateCalibData\<close>\<close>

text \<open>
  The source has no check of \<^verbatim>\<open>frag_seq\<close> against the fragment count, the size of the
  calibration record or the size of the bitmap.  When the copy of the fragment reaches
  behind the end of \<^verbatim>\<open>_calibData\<close>, or the byte of the bitmap lies behind its end, the
  source writes outside the array: the model sets \<open>m_overrun\<close> and follows the object no
  further.
\<close>

definition updateCalibData :: "rs41_consts \<Rightarrow> nat \<Rightarrow> u8 list \<Rightarrow> decoder_state \<Rightarrow> decoder_state" where
  "updateCalibData c frag_seq frag_data st =
     (let frag_offset = frag_seq * RS41_CALIB_FRAGSIZE c;
          bm = m_calibDataBitmap st
      in case memcpy_at (m_calibData st) frag_offset frag_data (RS41_CALIB_FRAGSIZE c) of
           None \<Rightarrow> st\<lparr>m_overrun := True\<rparr>
         | Some cd \<Rightarrow>
             if length bm \<le> frag_seq div 8 then st\<lparr>m_calibData := cd, m_overrun := True\<rparr>
             else
               (let bm' = bm[frag_seq div 8 :=
                             (bm ! (frag_seq div 8))
                               AND word_of_int (NOT (push_bit (frag_seq mod 8) 1))];
                    st' = st\<lparr>m_calibData := cd, m_calibDataBitmap := bm'\<rparr>
                in if \<exists>b \<in> set bm'. b \<noteq> 0 then st' else st'\<lparr>m_calibrated := True\<rparr>))"

text \<open>Bit \<open>n\<close> of the bitmap: set while fragment \<open>n\<close> is missing.\<close>

definition bitmap_bit :: "u8 list \<Rightarrow> nat \<Rightarrow> bool" where
  "bitmap_bit bm n = bit (bm ! (n div 8)) (n mod 8)"

subsection \<open>\<^verbatim>\<open>RS41Decoder::descramble\<close>\<close>

definition prn :: "u8 list" where
  "prn = [0x96, 0x83, 0x3e, 0x51, 0xb1, 0x49, 0x08, 0x98,
          0x32, 0x05, 0x59, 0x0e, 0xf9, 0x44, 0xc6, 0x26,
          0x21, 0x60, 0xc2, 0xea, 0x79, 0x5d, 0x6d, 0xa1,
          0x54, 0x69, 0x47, 0x0c, 0xdc, 0xe8, 0x5c, 0xf1,
          0xf7, 0x76, 0x82, 0x7f, 0x07, 0x99, 0xa2, 0x2c,
          0x93, 0x7c, 0x30, 0x63, 0xf5, 0x10, 0x2e, 0x61,
          0xd0, 0xbc, 0xb4, 0xb6, 0x06, 0xaa, 0xf4, 0x23,
          0x78, 0x6e, 0x3b, 0xae, 0xbf, 0x7b, 0x4c, 0xc1]"

text \<open>
  Modelled from the spec: \<^verbatim>\<open>RS41_PRN_PERIOD\<close>, whose definition is missing.  The sequence is
  64 bytes long and is cycled by the byte position modulo 64.
\<close>

definition RS41_PRN_PERIOD :: nat where
  "RS41_PRN_PERIOD = 64"

definition descramble_byte :: "nat \<Rightarrow> u8 \<Rightarrow> u8" where
  "descramble_byte i b =
     (let tmp = fold (\<lambda>j t. t OR push_bit j (drop_bit (7 - j) b AND 1)) [0..<8] (0 :: u8)
      in 0xFF XOR tmp XOR prn ! (i mod RS41_PRN_PERIOD))"

definition descramble :: "u8 list \<Rightarrow> u8 list" where
  "descramble frame = map2 descramble_byte [0..<length frame] frame"

subsection \<open>\<^verbatim>\<open>RS41Decoder::rsCorrect\<close>\<close>

text \<open>
  The two gather loops of one block.  \<^verbatim>\<open>frame->data[RS41_REEDSOLOMON_INTERLEAVING*i + block - 1]\<close>
  is the byte at \<open>offsetof_data c + I * i + block - 1 = offsetof_extended_flag c + I * i + block\<close>.
\<close>

definition deinterleave :: "rs41_consts \<Rightarrow> u8 list \<Rightarrow> nat \<Rightarrow> nat \<Rightarrow> u8 list \<Rightarrow> u8 list" where
  "deinterleave c frame block chunk_len rsBlock =
     fold (\<lambda>i b. b[RS41_REEDSOLOMON_K c + i :=
                     frame ! (offsetof_rs_checksum c + (i + RS41_REEDSOLOMON_T c * block))])
       [0..<RS41_REEDSOLOMON_T c]
       (fold (\<lambda>i b. b[i := frame ! (offsetof_extended_flag c
                                      + (RS41_REEDSOLOMON_INTERLEAVING c * i + block))])
          [0..<chunk_len] rsBlock)"

text \<open>The two scatter loops of one block.\<close>

definition reinterleave :: "rs41_consts \<Rightarrow> u8 list \<Rightarrow> nat \<Rightarrow> nat \<Rightarrow> u8 list \<Rightarrow> u8 list" where
  "reinterleave c rsBlock block chunk_len frame =
     fold (\<lambda>i f. f[offsetof_rs_checksum c + (i + RS41_REEDSOLOMON_T c * block) :=
                     rsBlock ! (RS41_REEDSOLOMON_K c + i)])
       [0..<RS41_REEDSOLOMON_T c]
       (fold (\<lambda>i f. f[offsetof_extended_flag c + (RS41_REEDSOLOMON_INTERLEAVING c * i + block) :=
                       rsBlock ! i])
          [0..<chunk_len] frame)"

text \<open>One round of the block loop on the frame, the scratch block and \<^verbatim>\<open>valid\<close>.\<close>

definition rs_block ::
  "rs41_consts \<Rightarrow> (u8 list \<Rightarrow> int \<times> u8 list) \<Rightarrow> nat \<Rightarrow> nat
    \<Rightarrow> u8 list \<times> u8 list \<times> bool \<Rightarrow> u8 list \<times> u8 list \<times> bool" where
  "rs_block c dec chunk_len block s =
     (case s of (frame, rsBlock, valid) \<Rightarrow>
        (let gathered = deinterleave c frame block chunk_len rsBlock;
             (ret, decoded) = dec gathered
         in (reinterleave c decoded block chunk_len frame, decoded,
             if ret < 0 then False else valid)))"

definition chunk_len_of :: "rs41_consts \<Rightarrow> u8 list \<Rightarrow> nat" where
  "chunk_len_of c frame =
     (if frame ! offsetof_extended_flag c \<noteq> RS41_FLAG_EXTENDED c
      then (RS41_DATA_LEN c + 1) div RS41_REEDSOLOMON_INTERLEAVING c
      else RS41_REEDSOLOMON_K c)"

text \<open>
  The scratch block \<^verbatim>\<open>rsBlock\<close> is a local array that is zeroed for a frame that is not
  extended and left as the stack has it otherwise; \<open>stack\<close> is that content.
\<close>

definition rsBlock_initial :: "rs41_consts \<Rightarrow> u8 list \<Rightarrow> u8 list \<Rightarrow> u8 list" where
  "rsBlock_initial c stack frame =
     (if frame ! offsetof_extended_flag c \<noteq> RS41_FLAG_EXTENDED c
      then replicate (RS41_REEDSOLOMON_N c) 0 else stack)"

text \<open>\<^verbatim>\<open>rsCorrect\<close> returns \<^verbatim>\<open>valid\<close>; the frame is corrected in place.\<close>

definition rsCorrect ::
  "rs41_consts \<Rightarrow> (u8 list \<Rightarrow> int \<times> u8 list) \<Rightarrow> u8 list \<Rightarrow> u8 list \<Rightarrow> bool \<times> u8 list" where
  "rsCorrect c dec stack frame =
     (case fold (rs_block c dec (chunk_len_of c frame)) [0..<RS41_REEDSOLOMON_INTERLEAVING c]
             (frame, rsBlock_initial c stack frame, True)
      of (frame', rsBlock, valid) \<Rightarrow> (valid, frame'))"

text \<open>
  The frame, the scratch block and \<^verbatim>\<open>valid\<close> when round \<open>block\<close> of the loop
  begins, and the codeword that the decoder is called with in that round.
\<close>

definition rs_round ::
  "rs41_consts \<Rightarrow> (u8 list \<Rightarrow> int \<times> u8 list) \<Rightarrow> u8 list \<Rightarrow> u8 list \<Rightarrow> nat
    \<Rightarrow> u8 list \<times> u8 list \<times> bool" where
  "rs_round c dec stack frame block =
     fold (rs_block c dec (chunk_len_of c frame)) [0..<block]
       (frame, rsBlock_initial c stack frame, True)"

definition rs_codeword ::
  "rs41_consts \<Rightarrow> (u8 list \<Rightarrow> int \<times> u8 list) \<Rightarrow> u8 list \<Rightarrow> u8 list \<Rightarrow> nat \<Rightarrow> u8 list" where
  "rs_codeword c dec stack frame block =
     (case rs_round c dec stack frame block of
        (f, rsBlock, valid) \<Rightarrow> deinterleave c f block (chunk_len_of c frame) rsBlock)"

subsection \<open>\<^verbatim>\<open>RS41Decoder::crcCheck\<close>\<close>

text \<open>
  Modelled from the spec: \<^verbatim>\<open>crc16\<close> of \<^verbatim>\<open>utils.h\<close> and the constants \<^verbatim>\<open>CCITT_FALSE_POLY\<close> and
  \<^verbatim>\<open>CCITT_FALSE_INIT\<close>, which are missing.  The spec names the CCITT-FALSE variant of
  CRC-16: polynomial \<open>0x1021\<close>, initial value \<open>0xFFFF\<close>, bytes taken most significant
  bit first, no final inversion.
\<close>

definition crc16_bit :: "u16 \<Rightarrow> u16 \<Rightarrow> u16" where
  "crc16_bit poly crc =
     (if bit crc 15 then push_bit 1 crc XOR poly else push_bit 1 crc)"

definition crc16_byte :: "u16 \<Rightarrow> u16 \<Rightarrow> u8 \<Rightarrow> u16" where
  "crc16_byte poly crc b = (crc16_bit poly ^^ 8) (crc XOR push_bit 8 (ucast b))"

definition crc16 :: "u16 \<Rightarrow> u16 \<Rightarrow> u8 list \<Rightarrow> u16" where
  "crc16 poly init_val bytes = foldl (crc16_byte poly) init_val bytes"

definition CCITT_FALSE_POLY :: u16 where
  "CCITT_FALSE_POLY = 0x1021"

definition CCITT_FALSE_INIT :: u16 where
  "CCITT_FALSE_INIT = 0xFFFF"

text \<open>
  A sub-record at offset \<open>sub\<close> of the data region: the type byte, the length byte, the
  payload, and two checksum bytes.
\<close>

definition subframe_type :: "u8 list \<Rightarrow> nat \<Rightarrow> u8" where
  "subframe_type data sub = data ! sub"

definition subframe_len :: "u8 list \<Rightarrow> nat \<Rightarrow> nat" where
  "subframe_len data sub = unat (data ! (sub + 1))"

definition subframe_data :: "u8 list \<Rightarrow> nat \<Rightarrow> nat \<Rightarrow> u8" where
  "subframe_data data sub i = data ! (sub + 2 + i)"

definition crcCheck :: "u8 list \<Rightarrow> nat \<Rightarrow> bool" where
  "crcCheck data sub =
     (let len = subframe_len data sub;
          checksum = crc16 CCITT_FALSE_POLY CCITT_FALSE_INIT
                       (map (subframe_data data sub) [0..<len]);
          expected = (ucast (subframe_data data sub len) :: u16)
                       OR push_bit 8 (ucast (subframe_data data sub (len + 1)))
      in checksum = expected)"

subsection \<open>\<^verbatim>\<open>RS41Decoder::updateSondeData\<close>\<close>

definition updateSondeData ::
  "rs41_consts \<Rightarrow> rs41_layout \<Rightarrow> 'r rs41_extern \<Rightarrow> decoder_state \<times> 'r SondeData
    \<Rightarrow> u8 list \<Rightarrow> nat \<Rightarrow> decoder_state \<times> 'r SondeData" where
  "updateSondeData c l ext s data sub =
     (case s of (st, info) \<Rightarrow>
        if subframe_type data sub = RS41_SFTYPE_INFO c then
          (let st' = updateCalibData c (status_frag_seq l data sub) (status_frag_data l data sub) st;
               timer = calib_burstkill_timer l (m_calibData st')
           in (st', info\<lparr>calibrated := m_calibrated st',
                          serial := status_serial l data sub,
                          burstkill := (if timer = 0xFFFF then - 1 else int timer),
                          seq := status_frame_seq l data sub\<rparr>))
        else if subframe_type data sub = RS41_SFTYPE_GPSPOS c then
          (case gpspos_xyz l data sub of (x, y, z) \<Rightarrow>
           case gpspos_dxyz l data sub of (dx, dy, dz) \<Rightarrow>
           case ecef_to_lla ext (div100 ext x) (div100 ext y) (div100 ext z)
             of (v_lat, v_lon, v_alt) \<Rightarrow>
           case ecef_to_spd_hdg ext v_lat v_lon (div100 ext dx) (div100 ext dy) (div100 ext dz)
             of (v_spd, v_hdg, v_climb) \<Rightarrow>
             (st, info\<lparr>lat := v_lat, lon := v_lon, alt := v_alt,
                        spd := v_spd, hdg := v_hdg, climb := v_climb\<rparr>))
        else (st, info))"

subsection \<open>\<^verbatim>\<open>RS41Decoder::run\<close>\<close>

text \<open>
  The walk over the sub-records of one frame (\<^verbatim>\<open>while (offset < bytesLeft)\<close>), with the
  dispatch \<open>upd\<close> as an argument.  The walk is defined as a partial function, so that
  \<open>None\<close> would be a loop that does not end.
\<close>

partial_function (option) subframe_walk ::
  "('a \<Rightarrow> u8 list \<Rightarrow> nat \<Rightarrow> 'a) \<Rightarrow> u8 list \<Rightarrow> nat \<Rightarrow> nat \<Rightarrow> 'a \<Rightarrow> 'a option" where
  "subframe_walk upd data bytesLeft offset acc =
     (if offset < bytesLeft then
        (let sub = offset;
             offset' = offset + (subframe_len data sub + 4)
         in if offset' > bytesLeft then Some acc
            else if \<not> crcCheck data sub then subframe_walk upd data bytesLeft offset' acc
            else subframe_walk upd data bytesLeft offset' (upd acc data sub))
      else Some acc)"

declare subframe_walk.simps [code]

text \<open>
  The body of the loop over the frames for one frame.  \<open>rs\<close> is the member \<^verbatim>\<open>_rs\<close>:
  \<open>None\<close> for a null handle.  The result of \<^verbatim>\<open>rsCorrect\<close> is not used by the source.
\<close>

definition bytesLeft_of :: "rs41_consts \<Rightarrow> u8 list \<Rightarrow> nat" where
  "bytesLeft_of c frame =
     RS41_DATA_LEN c
       + (if frame ! offsetof_extended_flag c = RS41_FLAG_EXTENDED c then RS41_XDATA_LEN c else 0)"

definition fec_frame :: "rs41_consts \<Rightarrow> 'r rs41_extern option \<Rightarrow> u8 list \<Rightarrow> u8 list \<Rightarrow> u8 list" where
  "fec_frame c rs stack frame =
     (case rs of None \<Rightarrow> descramble frame
      | Some ext \<Rightarrow> snd (rsCorrect c (correct_reed_solomon_decode ext) stack (descramble frame)))"

definition run_frame ::
  "rs41_consts \<Rightarrow> rs41_layout \<Rightarrow> 'r rs41_extern \<Rightarrow> bool \<Rightarrow> u8 list
    \<Rightarrow> decoder_state \<times> 'r SondeData \<Rightarrow> u8 list \<Rightarrow> (decoder_state \<times> 'r SondeData) option" where
  "run_frame c l ext have_rs stack s frame =
     (let frame' = fec_frame c (if have_rs then Some ext else None) stack frame
      in subframe_walk (updateSondeData c l ext) (drop (offsetof_data c) frame')
           (bytesLeft_of c frame') 0 s)"

text \<open>
  \<^verbatim>\<open>run\<close> on a read of \<open>buf\<close>: the record \<^verbatim>\<open>sondeData\<close> is a local of \<^verbatim>\<open>run\<close>, declared
  before the loop over the frames, and \<open>fresh\<close> is its value after construction.  The
  result is the decoder state after the call and the records in the order in which the
  handler got them; their number is the value that \<^verbatim>\<open>run\<close> returns.
\<close>

fun run_frames ::
  "rs41_consts \<Rightarrow> rs41_layout \<Rightarrow> 'r rs41_extern \<Rightarrow> bool \<Rightarrow> u8 list
    \<Rightarrow> decoder_state \<times> 'r SondeData \<Rightarrow> u8 list list
    \<Rightarrow> (decoder_state \<times> 'r SondeData list) option" where
  "run_frames c l ext have_rs stack s [] = Some (fst s, [])"
| "run_frames c l ext have_rs stack s (frame # frames) =
     (case run_frame c l ext have_rs stack s frame of
        None \<Rightarrow> None
      | Some s' \<Rightarrow>
          (case run_frames c l ext have_rs stack s' frames of
             None \<Rightarrow> None
           | Some (st, out) \<Rightarrow> Some (st, snd s' # out)))"

definition frames_of :: "rs41_consts \<Rightarrow> u8 list \<Rightarrow> u8 list list" where
  "frames_of c buf =
     map (\<lambda>i. take (sizeof_RS41Frame c) (drop (i * sizeof_RS41Frame c) buf))
       [0..<length buf div sizeof_RS41Frame c]"

definition run ::
  "rs41_consts \<Rightarrow> rs41_layout \<Rightarrow> 'r rs41_extern \<Rightarrow> bool \<Rightarrow> u8 list \<Rightarrow> 'r SondeData
    \<Rightarrow> decoder_state \<Rightarrow> u8 list \<Rightarrow> (decoder_state \<times> 'r SondeData list) option" where
  "run c l ext have_rs stack fresh st buf =
     run_frames c l ext have_rs stack (st, fresh) (frames_of c buf)"

subsection \<open>The constants of the RS41 protocol\<close>

text \<open>
  The values that the protocol gives the constants: a frame of 518 bytes with an 8-byte
  sync word, 48 parity bytes, the flag byte, 263 data bytes and 198 bytes of extended
  data; two interleaved codewords of a (255, 231) Reed-Solomon code; a calibration record
  of 51 fragments of 16 bytes and a bitmap of 7 bytes.  They serve the evaluations on
  concrete frames; the general theorems hold for all constants.
\<close>

definition rs41 :: rs41_consts where
  "rs41 = \<lparr>RS41_DATA_LEN = 263, RS41_XDATA_LEN = 198, RS41_FLAG_EXTENDED = 0xF0,
            RS41_REEDSOLOMON_INTERLEAVING = 2, RS41_REEDSOLOMON_N = 255,
            RS41_REEDSOLOMON_K = 231, RS41_REEDSOLOMON_T = 24,
            RS41_CALIB_FRAGCOUNT = 51, RS41_CALIB_FRAGSIZE = 16,
            RS41_SFTYPE_INFO = 0x79, RS41_SFTYPE_GPSPOS = 0x7B,
            sizeof_RS41Frame = 518, sizeof_calibDataBitmap = 7,
            offsetof_rs_checksum = 8, offsetof_extended_flag = 56\<rparr>"


text \<open>
  The persistent members of a decoder object before \<^verbatim>\<open>init\<close>, for the evaluations: a
  zeroed calibration record of 51 * 16 bytes, a zeroed bitmap and a clear flag; nothing
  has been written outside the arrays.
\<close>

definition rs41_blank :: decoder_state where
  "rs41_blank = \<lparr>m_calibData = replicate 816 0, m_calibDataBitmap = replicate 7 0,
                   m_calibrated = False, m_overrun = False\<rparr>"

subsection \<open>The sub-records of a data region, as the specification describes them\<close>

text \<open>
  The offsets of the records that lie within the bound: the first record starts at the
  given offset, a record with payload length \<open>n\<close> spans \<open>n + 4\<close> bytes and the next one
  starts behind it; the sequence ends before the first record whose span would exceed the
  bound.
\<close>

function inbound_records :: "u8 list \<Rightarrow> nat \<Rightarrow> nat \<Rightarrow> nat list" where
  "inbound_records data bytesLeft offset =
     (if offset < bytesLeft \<and> offset + (subframe_len data offset + 4) \<le> bytesLeft
      then offset # inbound_records data bytesLeft (offset + (subframe_len data offset + 4))
      else [])"
  by pat_completeness auto
termination
  by (relation "measure (\<lambda>(data, bytesLeft, offset). bytesLeft - offset)") auto

declare inbound_records.simps [simp del]

subsection \<open>Well-formed constants\<close>

text \<open>
  What the theorems about \<^verbatim>\<open>rsCorrect\<close> ask of the constants: there is at least one
  block, the data and parity symbols of a codeword fit into the scratch block, the chunk
  of a frame that is not extended is no longer than \<open>K\<close>, the parity bytes and the
  interleaved symbols lie within the frame and do not overlap.
\<close>

definition wf_rs_layout :: "rs41_consts \<Rightarrow> bool" where
  "wf_rs_layout c \<longleftrightarrow>
     0 < RS41_REEDSOLOMON_INTERLEAVING c
     \<and> RS41_REEDSOLOMON_K c + RS41_REEDSOLOMON_T c \<le> RS41_REEDSOLOMON_N c
     \<and> (RS41_DATA_LEN c + 1) div RS41_REEDSOLOMON_INTERLEAVING c \<le> RS41_REEDSOLOMON_K c
     \<and> offsetof_extended_flag c + RS41_REEDSOLOMON_INTERLEAVING c * RS41_REEDSOLOMON_K c
           \<le> sizeof_RS41Frame c
     \<and> offsetof_rs_checksum c + RS41_REEDSOLOMON_T c * RS41_REEDSOLOMON_INTERLEAVING c
           \<le> sizeof_RS41Frame c
     \<and> (offsetof_rs_checksum c + RS41_REEDSOLOMON_T c * RS41_REEDSOLOMON_INTERLEAVING c
           \<le> offsetof_extended_flag c
        \<or> offsetof_extended_flag c + RS41_REEDSOLOMON_INTERLEAVING c * RS41_REEDSOLOMON_K c
           \<le> offsetof_rs_checksum c)"

subsection \<open>What a frame holds for the dispatch\<close>

text \<open>
  The data region of a frame after descrambling and error correction, the offsets of its
  records that lie within the bound and have a valid checksum, and whether one of them is
  dispatched as a status record or as a position record.
\<close>

definition frame_data :: "rs41_consts \<Rightarrow> 'r rs41_extern \<Rightarrow> bool \<Rightarrow> u8 list \<Rightarrow> u8 list \<Rightarrow> u8 list" where
  "frame_data c ext have_rs stack frame =
     drop (offsetof_data c) (fec_frame c (if have_rs then Some ext else None) stack frame)"

definition valid_records :: "rs41_consts \<Rightarrow> 'r rs41_extern \<Rightarrow> bool \<Rightarrow> u8 list \<Rightarrow> u8 list \<Rightarrow> nat list" where
  "valid_records c ext have_rs stack frame =
     filter (crcCheck (frame_data c ext have_rs stack frame))
       (inbound_records (frame_data c ext have_rs stack frame)
          (bytesLeft_of c (fec_frame c (if have_rs then Some ext else None) stack frame)) 0)"

definition has_info :: "rs41_consts \<Rightarrow> 'r rs41_extern \<Rightarrow> bool \<Rightarrow> u8 list \<Rightarrow> u8 list \<Rightarrow> bool" where
  "has_info c ext have_rs stack frame \<longleftrightarrow>
     (\<exists>sub \<in> set (valid_records c ext have_rs stack frame).
        subframe_type (frame_data c ext have_rs stack frame) sub = RS41_SFTYPE_INFO c)"

definition has_gpspos :: "rs41_consts \<Rightarrow> 'r rs41_extern \<Rightarrow> bool \<Rightarrow> u8 list \<Rightarrow> u8 list \<Rightarrow> bool" where
  "has_gpspos c ext have_rs stack frame \<longleftrightarrow>
     (\<exists>sub \<in> set (valid_records c ext have_rs stack frame).
        subframe_type (frame_data c ext have_rs stack frame) sub \<noteq> RS41_SFTYPE_INFO c
        \<and> subframe_type (frame_data c ext have_rs stack frame) sub = RS41_SFTYPE_GPSPOS c)"

text \<open>The fields of a record that a status record writes, and those a position record writes.\<close>

definition info_part :: "'r SondeData \<Rightarrow> bool \<times> u8 list \<times> int \<times> nat" where
  "info_part r = (calibrated r, serial r, burstkill r, seq r)"

definition gps_part :: "'r SondeData \<Rightarrow> 'r \<times> 'r \<times> 'r \<times> 'r \<times> 'r \<times> 'r" where
  "gps_part r = (lat r, lon r, alt r, spd r, hdg r, climb r)"

section \<open>Definitions: concrete inputs for the evaluations\<close>

text \<open>
  The places of the members in the structs of the RS41 protocol: in a status record the
  frame counter at byte 2, the serial at byte 4, the fragment index at byte 25 and the
  fragment at byte 26; in a position record three 32-bit and three 16-bit values from
  byte 2 on; the burst-kill timer at byte \<open>0x316\<close> of the calibration record.
\<close>

definition le_u16 :: "u8 list \<Rightarrow> nat \<Rightarrow> nat" where
  "le_u16 bs i = unat (bs ! i) + 256 * unat (bs ! (i + 1))"

definition le_s16 :: "u8 list \<Rightarrow> nat \<Rightarrow> int" where
  "le_s16 bs i = sint (word_of_nat (le_u16 bs i) :: 16 word)"

definition le_s32 :: "u8 list \<Rightarrow> nat \<Rightarrow> int" where
  "le_s32 bs i = sint (word_of_nat (le_u16 bs i + 65536 * le_u16 bs (i + 2)) :: 32 word)"

definition rs41_layout_std :: rs41_layout where
  "rs41_layout_std =
     \<lparr>status_frame_seq = (\<lambda>data sub. le_u16 data (sub + 2)),
      status_serial = (\<lambda>data sub. map (\<lambda>i. data ! (sub + 4 + i)) [0..<8]),
      status_frag_seq = (\<lambda>data sub. unat (data ! (sub + 25))),
      status_frag_data = (\<lambda>data sub. map (\<lambda>i. data ! (sub + 26 + i)) [0..<16]),
      gpspos_xyz = (\<lambda>data sub. (le_s32 data (sub + 2), le_s32 data (sub + 6), le_s32 data (sub + 10))),
      gpspos_dxyz = (\<lambda>data sub. (le_s16 data (sub + 14), le_s16 data (sub + 16), le_s16 data (sub + 18))),
      calib_burstkill_timer = (\<lambda>cd. le_u16 cd 790)\<rparr>"

text \<open>
  Stand-ins for the external functions, with integers for the floating-point values: a
  Reed-Solomon decoder that reports a failure, or a success, and leaves the block as it
  is, and conversions that pass their arguments on.
\<close>

definition extern_rs_fails :: "int rs41_extern" where
  "extern_rs_fails =
     \<lparr>correct_reed_solomon_decode = (\<lambda>blk. (- 1, blk)),
      div100 = (\<lambda>v. v),
      ecef_to_lla = (\<lambda>x y z. (x, y, z)),
      ecef_to_spd_hdg = (\<lambda>la lo dx dy dz. (dx, dy, dz))\<rparr>"

definition extern_rs_succeeds :: "int rs41_extern" where
  "extern_rs_succeeds = extern_rs_fails\<lparr>correct_reed_solomon_decode := (\<lambda>blk. (0, blk))\<rparr>"

definition sonde_fresh :: "int SondeData" where
  "sonde_fresh = \<lparr>calibrated = False, serial = [], burstkill = 0, seq = 0,
                   lat = 0, lon = 0, alt = 0, spd = 0, hdg = 0, climb = 0\<rparr>"

text \<open>
  Two frames as the framer delivers them (scrambled).  Descrambled, the first is a standard
  frame (flag \<open>0x0F\<close>) whose data region starts with a status record: frame counter 5,
  serial \<open>S1234567\<close>, calibration fragment 50, a valid checksum; all its other bytes are
  zero.  The second is a standard frame whose other bytes are all zero, so that none of
  its records has a valid checksum.
\<close>

definition frame_status :: "u8 list" where
  "frame_status =
    [0x96, 0x3E, 0x83, 0x75, 0x72, 0x6D, 0xEF, 0xE6, 0xB3, 0x5F, 0x65, 0x8F, 0x60, 0xDD,
     0x9C, 0x9B, 0x7B, 0xF9, 0xBC, 0xA8, 0x61, 0x45, 0x49, 0x7A, 0xD5, 0x69, 0x1D, 0xCF,
     0xC4, 0xE8, 0xC5, 0x70, 0x10, 0x91, 0xBE, 0x01, 0x1F, 0x66, 0xBA, 0xCB, 0x36, 0xC1,
     0xF3, 0x39, 0x50, 0xF7, 0x8B, 0x79, 0xF4, 0xC2, 0xD2, 0x92, 0x9F, 0xAA, 0xD0, 0x3B,
     0x11, 0x17, 0x37, 0x2A, 0x02, 0xEB, 0x41, 0x30, 0x5A, 0x12, 0x2F, 0x19, 0x9E, 0x6D,
     0xEF, 0xE6, 0xB3, 0x5F, 0x65, 0x8F, 0x60, 0xDD, 0x9C, 0x9B, 0x7B, 0xF9, 0xF0, 0x20,
     0xE9, 0xCD, 0xC1, 0xF2, 0x5D, 0xE1, 0x95, 0x47, 0x4C, 0x60, 0x4D, 0xF8, 0x98, 0x19,
     0x36, 0x19, 0x18, 0x66, 0xBA, 0xCB, 0x36, 0xC1, 0xF3, 0x39, 0x50, 0xF7, 0x8B, 0x79,
     0xF4, 0xC2, 0xD2, 0x92, 0x9F, 0xAA, 0xD0, 0x3B, 0xE1, 0x89, 0x23, 0x8A, 0x02, 0x21,
     0xCD, 0x7C, 0x96, 0x3E, 0x83, 0x75, 0x72, 0x6D, 0xEF, 0xE6, 0xB3, 0x5F, 0x65, 0x8F,
     0x60, 0xDD, 0x9C, 0x9B, 0x7B, 0xF9, 0xBC, 0xA8, 0x61, 0x45, 0x49, 0x7A, 0xD5, 0x69,
     0x1D, 0xCF, 0xC4, 0xE8, 0xC5, 0x70, 0x10, 0x91, 0xBE, 0x01, 0x1F, 0x66, 0xBA, 0xCB,
     0x36, 0xC1, 0xF3, 0x39, 0x50, 0xF7, 0x8B, 0x79, 0xF4, 0xC2, 0xD2, 0x92, 0x9F, 0xAA,
     0xD0, 0x3B, 0xE1, 0x89, 0x23, 0x8A, 0x02, 0x21, 0xCD, 0x7C, 0x96, 0x3E, 0x83, 0x75,
     0x72, 0x6D, 0xEF, 0xE6, 0xB3, 0x5F, 0x65, 0x8F, 0x60, 0xDD, 0x9C, 0x9B, 0x7B, 0xF9,
     0xBC, 0xA8, 0x61, 0x45, 0x49, 0x7A, 0xD5, 0x69, 0x1D, 0xCF, 0xC4, 0xE8, 0xC5, 0x70,
     0x10, 0x91, 0xBE, 0x01, 0x1F, 0x66, 0xBA, 0xCB, 0x36, 0xC1, 0xF3, 0x39, 0x50, 0xF7,
     0x8B, 0x79, 0xF4, 0xC2, 0xD2, 0x92, 0x9F, 0xAA, 0xD0, 0x3B, 0xE1, 0x89, 0x23, 0x8A,
     0x02, 0x21, 0xCD, 0x7C, 0x96, 0x3E, 0x83, 0x75, 0x72, 0x6D, 0xEF, 0xE6, 0xB3, 0x5F,
     0x65, 0x8F, 0x60, 0xDD, 0x9C, 0x9B, 0x7B, 0xF9, 0xBC, 0xA8, 0x61, 0x45, 0x49, 0x7A,
     0xD5, 0x69, 0x1D, 0xCF, 0xC4, 0xE8, 0xC5, 0x70, 0x10, 0x91, 0xBE, 0x01, 0x1F, 0x66,
     0xBA, 0xCB, 0x36, 0xC1, 0xF3, 0x39, 0x50, 0xF7, 0x8B, 0x79, 0xF4, 0xC2, 0xD2, 0x92,
     0x9F, 0xAA, 0xD0, 0x3B, 0xE1, 0x89, 0x23, 0x8A, 0x02, 0x21, 0xCD, 0x7C, 0x96, 0x3E,
     0x83, 0x75, 0x72, 0x6D, 0xEF, 0xE6, 0xB3, 0x5F, 0x65, 0x8F, 0x60, 0xDD, 0x9C, 0x9B,
     0x7B, 0xF9, 0xBC, 0xA8, 0x61, 0x45, 0x49, 0x7A, 0xD5, 0x69, 0x1D, 0xCF, 0xC4, 0xE8,
     0xC5, 0x70, 0x10, 0x91, 0xBE, 0x01, 0x1F, 0x66, 0xBA, 0xCB, 0x36, 0xC1, 0xF3, 0x39,
     0x50, 0xF7, 0x8B, 0x79, 0xF4, 0xC2, 0xD2, 0x92, 0x9F, 0xAA, 0xD0, 0x3B, 0xE1, 0x89,
     0x23, 0x8A, 0x02, 0x21, 0xCD, 0x7C, 0x96, 0x3E, 0x83, 0x75, 0x72, 0x6D, 0xEF, 0xE6,
     0xB3, 0x5F, 0x65, 0x8F, 0x60, 0xDD, 0x9C, 0x9B, 0x7B, 0xF9, 0xBC, 0xA8, 0x61, 0x45,
     0x49, 0x7A, 0xD5, 0x69, 0x1D, 0xCF, 0xC4, 0xE8, 0xC5, 0x70, 0x10, 0x91, 0xBE, 0x01,
     0x1F, 0x66, 0xBA, 0xCB, 0x36, 0xC1, 0xF3, 0x39, 0x50, 0xF7, 0x8B, 0x79, 0xF4, 0xC2,
     0xD2, 0x92, 0x9F, 0xAA, 0xD0, 0x3B, 0xE1, 0x89, 0x23, 0x8A, 0x02, 0x21, 0xCD, 0x7C,
     0x96, 0x3E, 0x83, 0x75, 0x72, 0x6D, 0xEF, 0xE6, 0xB3, 0x5F, 0x65, 0x8F, 0x60, 0xDD,
     0x9C, 0x9B, 0x7B, 0xF9, 0xBC, 0xA8, 0x61, 0x45, 0x49, 0x7A, 0xD5, 0x69, 0x1D, 0xCF,
     0xC4, 0xE8, 0xC5, 0x70, 0x10, 0x91, 0xBE, 0x01, 0x1F, 0x66, 0xBA, 0xCB, 0x36, 0xC1,
     0xF3, 0x39, 0x50, 0xF7, 0x8B, 0x79, 0xF4, 0xC2, 0xD2, 0x92, 0x9F, 0xAA, 0xD0, 0x3B,
     0xE1, 0x89, 0x23, 0x8A, 0x02, 0x21, 0xCD, 0x7C, 0x96, 0x3E, 0x83, 0x75, 0x72, 0x6D]"

definition frame_blank :: "u8 list" where
  "frame_blank =
    [0x96, 0x3E, 0x83, 0x75, 0x72, 0x6D, 0xEF, 0xE6, 0xB3, 0x5F, 0x65, 0x8F, 0x60, 0xDD,
     0x9C, 0x9B, 0x7B, 0xF9, 0xBC, 0xA8, 0x61, 0x45, 0x49, 0x7A, 0xD5, 0x69, 0x1D, 0xCF,
     0xC4, 0xE8, 0xC5, 0x70, 0x10, 0x91, 0xBE, 0x01, 0x1F, 0x66, 0xBA, 0xCB, 0x36, 0xC1,
     0xF3, 0x39, 0x50, 0xF7, 0x8B, 0x79, 0xF4, 0xC2, 0xD2, 0x92, 0x9F, 0xAA, 0xD0, 0x3B,
     0x11, 0x89, 0x23, 0x8A, 0x02, 0x21, 0xCD, 0x7C, 0x96, 0x3E, 0x83, 0x75, 0x72, 0x6D,
     0xEF, 0xE6, 0xB3, 0x5F, 0x65, 0x8F, 0x60, 0xDD, 0x9C, 0x9B, 0x7B, 0xF9, 0xBC, 0xA8,
     0x61, 0x45, 0x49, 0x7A, 0xD5, 0x69, 0x1D, 0xCF, 0xC4, 0xE8, 0xC5, 0x70, 0x10, 0x91,
     0xBE, 0x01, 0x1F, 0x66, 0xBA, 0xCB, 0x36, 0xC1, 0xF3, 0x39, 0x50, 0xF7, 0x8B, 0x79,
     0xF4, 0xC2, 0xD2, 0x92, 0x9F, 0xAA, 0xD0, 0x3B, 0xE1, 0x89, 0x23, 0x8A, 0x02, 0x21,
     0xCD, 0x7C, 0x96, 0x3E, 0x83, 0x75, 0x72, 0x6D, 0xEF, 0xE6, 0xB3, 0x5F, 0x65, 0x8F,
     0x60, 0xDD, 0x9C, 0x9B, 0x7B, 0xF9, 0xBC, 0xA8, 0x61, 0x45, 0x49, 0x7A, 0xD5, 0x69,
     0x1D, 0xCF, 0xC4, 0xE8, 0xC5, 0x70, 0x10, 0x91, 0xBE, 0x01, 0x1F, 0x66, 0xBA, 0xCB,
     0x36, 0xC1, 0xF3, 0x39, 0x50, 0xF7, 0x8B, 0x79, 0xF4, 0xC2, 0xD2, 0x92, 0x9F, 0xAA,
     0xD0, 0x3B, 0xE1, 0x89, 0x23, 0x8A, 0x02, 0x21, 0xCD, 0x7C, 0x96, 0x3E, 0x83, 0x75,
     0x72, 0x6D, 0xEF, 0xE6, 0xB3, 0x5F, 0x65, 0x8F, 0x60, 0xDD, 0x9C, 0x9B, 0x7B, 0xF9,
     0xBC, 0xA8, 0x61, 0x45, 0x49, 0x7A, 0xD5, 0x69, 0x1D, 0xCF, 0xC4, 0xE8, 0xC5, 0x70,
     0x10, 0x91, 0xBE, 0x01, 0x1F, 0x66, 0xBA, 0xCB, 0x36, 0xC1, 0xF3, 0x39, 0x50, 0xF7,
     0x8B, 0x79, 0xF4, 0xC2, 0xD2, 0x92, 0x9F, 0xAA, 0xD0, 0x3B, 0xE1, 0x89, 0x23, 0x8A,
     0x02, 0x21, 0xCD, 0x7C, 0x96, 0x3E, 0x83, 0x75, 0x72, 0x6D, 0xEF, 0xE6, 0xB3, 0x5F,
     0x65, 0x8F, 0x60, 0xDD, 0x9C, 0x9B, 0x7B, 0xF9, 0xBC, 0xA8, 0x61, 0x45, 0x49, 0x7A,
     0xD5, 0x69, 0x1D, 0xCF, 0xC4, 0xE8, 0xC5, 0x70, 0x10, 0x91, 0xBE, 0x01, 0x1F, 0x66,
     0xBA, 0xCB, 0x36, 0xC1, 0xF3, 0x39, 0x50, 0xF7, 0x8B, 0x79, 0xF4, 0xC2, 0xD2, 0x92,
     0x9F, 0xAA, 0xD0, 0x3B, 0xE1, 0x89, 0x23, 0x8A, 0x02, 0x21, 0xCD, 0x7C, 0x96, 0x3E,
     0x83, 0x75, 0x72, 0x6D, 0xEF, 0xE6, 0xB3, 0x5F, 0x65, 0x8F, 0x60, 0xDD, 0x9C, 0x9B,
     0x7B, 0xF9, 0xBC, 0xA8, 0x61, 0x45, 0x49, 0x7A, 0xD5, 0x69, 0x1D, 0xCF, 0xC4, 0xE8,
     0xC5, 0x70, 0x10, 0x91, 0xBE, 0x01, 0x1F, 0x66, 0xBA, 0xCB, 0x36, 0xC1, 0xF3, 0x39,
     0x50, 0xF7, 0x8B, 0x79, 0xF4, 0xC2, 0xD2, 0x92, 0x9F, 0xAA, 0xD0, 0x3B, 0xE1, 0x89,
     0x23, 0x8A, 0x02, 0x21, 0xCD, 0x7C, 0x96, 0x3E, 0x83, 0x75, 0x72, 0x6D, 0xEF, 0xE6,
     0xB3, 0x5F, 0x65, 0x8F, 0x60, 0xDD, 0x9C, 0x9B, 0x7B, 0xF9, 0xBC, 0xA8, 0x61, 0x45,
     0x49, 0x7A, 0xD5, 0x69, 0x1D, 0xCF, 0xC4, 0xE8, 0xC5, 0x70, 0x10, 0x91, 0xBE, 0x01,
     0x1F, 0x66, 0xBA, 0xCB, 0x36, 0xC1, 0xF3, 0x39, 0x50, 0xF7, 0x8B, 0x79, 0xF4, 0xC2,
     0xD2, 0x92, 0x9F, 0xAA, 0xD0, 0x3B, 0xE1, 0x89, 0x23, 0x8A, 0x02, 0x21, 0xCD, 0x7C,
     0x96, 0x3E, 0x83, 0x75, 0x72, 0x6D, 0xEF, 0xE6, 0xB3, 0x5F, 0x65, 0x8F, 0x60, 0xDD,
     0x9C, 0x9B, 0x7B, 0xF9, 0xBC, 0xA8, 0x61, 0x45, 0x49, 0x7A, 0xD5, 0x69, 0x1D, 0xCF,
     0xC4, 0xE8, 0xC5, 0x70, 0x10, 0x91, 0xBE, 0x01, 0x1F, 0x66, 0xBA, 0xCB, 0x36, 0xC1,
     0xF3, 0x39, 0x50, 0xF7, 0x8B, 0x79, 0xF4, 0xC2, 0xD2, 0x92, 0x9F, 0xAA, 0xD0, 0x3B,
     0xE1, 0x89, 0x23, 0x8A, 0x02, 0x21, 0xCD, 0x7C, 0x96, 0x3E, 0x83, 0x75, 0x72, 0x6D]"

text \<open>The two frames descrambled.\<close>

definition plain_status :: "u8 list" where
  "plain_status =
     replicate 56 0x00
     @ [0x0F, 0x79, 0x28, 0x05, 0x00, 0x53, 0x31, 0x32, 0x33, 0x34, 0x35, 0x36, 0x37]
     @ replicate 13 0x00 @ [0x32] @ replicate 16 0x11 @ [0x18, 0xE0] @ replicate 417 0x00"

definition plain_blank :: "u8 list" where
  "plain_blank = replicate 56 0x00 @ [0x0F] @ replicate 461 0x00"

text \<open>
  A short frame, for a decoder with a data region of 18 bytes: descrambled, the data
  region holds a record with two payload bytes and a valid checksum at offset 0, a record
  with a wrong checksum at offset 6, an empty record with a valid checksum at offset 11
  and, at offset 15, a record that declares 200 payload bytes.
\<close>

definition rs41_short :: rs41_consts where
  "rs41_short = rs41\<lparr>RS41_DATA_LEN := 18, sizeof_RS41Frame := 75\<rparr>"

definition frame_short :: "u8 list" where
  "frame_short =
    [0x96, 0x3E, 0x83, 0x75, 0x72, 0x6D, 0xEF, 0xE6, 0xB3, 0x5F, 0x65, 0x8F, 0x60, 0xDD,
     0x9C, 0x9B, 0x7B, 0xF9, 0xBC, 0xA8, 0x61, 0x45, 0x49, 0x7A, 0xD5, 0x69, 0x1D, 0xCF,
     0xC4, 0xE8, 0xC5, 0x70, 0x10, 0x91, 0xBE, 0x01, 0x1F, 0x66, 0xBA, 0xCB, 0x36, 0xC1,
     0xF3, 0x39, 0x50, 0xF7, 0x8B, 0x79, 0xF4, 0xC2, 0xD2, 0x92, 0x9F, 0xAA, 0xD0, 0x3B,
     0x11, 0xD7, 0x63, 0x0A, 0x42, 0x1F, 0xBD, 0x42, 0x16, 0xAE, 0x18, 0xFB, 0x0C, 0x6D,
     0x10, 0x19, 0xDD, 0x4C, 0x65]"

definition plain_short :: "u8 list" where
  "plain_short =
     replicate 56 0x00
     @ [0x0F, 0x7A, 0x02, 0x01, 0x02, 0x7C, 0x0E, 0x7C, 0x01, 0x09, 0xD9, 0x71,
        0x7E, 0x00, 0xFF, 0xFF, 0x76, 0xC8, 0x00]"

text \<open>
  Two more stand-ins for the Reed-Solomon decoder: one that reports a success and leaves
  \<open>0xFF\<close> in every byte of the block, and one that leaves the block as it is and
  reports a failure for a codeword that starts with \<open>0x0F\<close>, a success for any other.
\<close>

definition decode_fill :: "u8 list \<Rightarrow> int \<times> u8 list" where
  "decode_fill blk = (0, replicate (length blk) 0xFF)"

definition decode_fail_on_flag :: "u8 list \<Rightarrow> int \<times> u8 list" where
  "decode_fail_on_flag blk = (if blk ! 0 = 0x0F then - 1 else 0, blk)"

section \<open>Writing to a buffer byte by byte\<close>

lemma fold_update_length [simp]:
  "length (fold (\<lambda>i b. b[f i := g i]) is xs) = length xs"
  by (induction "is" arbitrary: xs) simp_all

lemma fold_update_miss:
  "(\<forall>i \<in> set is. f i \<noteq> j) \<Longrightarrow> fold (\<lambda>i b. b[f i := g i]) is xs ! j = xs ! j"
  by (induction "is" arbitrary: xs) simp_all

lemma fold_update_hit:
  assumes "i < n" and "inj_on f {..<n}" and "f i < length xs"
  shows "fold (\<lambda>i b. b[f i := g i]) [0..<n] xs ! f i = g i"
  using assms
proof (induction n)
  case 0
  then show ?case by simp
next
  case (Suc n)
  have inj: "inj_on f {..<n}"
    using Suc.prems(2) by (rule inj_on_subset) auto
  show ?case
  proof (cases "i = n")
    case True
    then show ?thesis using Suc.prems(3) by simp
  next
    case False
    with Suc.prems(1) have lt: "i < n" by simp
    have "f n \<noteq> f i"
    proof
      assume "f n = f i"
      moreover have "n \<in> {..<Suc n}" "i \<in> {..<Suc n}" using lt by simp_all
      ultimately have "n = i" by (rule inj_onD [OF Suc.prems(2)])
      with lt show False by simp
    qed
    then show ?thesis using Suc.IH [OF lt inj Suc.prems(3)] by simp
  qed
qed


lemma copy_in_range:
  assumes "off + length src \<le> length dst"
  shows "fold (\<lambda>i d. d[off + i := src ! i]) [0..<length src] dst
       = take off dst @ src @ drop (off + length src) dst"
proof (rule nth_equalityI)
  show "length (fold (\<lambda>i d. d[off + i := src ! i]) [0..<length src] dst)
      = length (take off dst @ src @ drop (off + length src) dst)"
    using assms by simp
  fix p
  assume "p < length (fold (\<lambda>i d. d[off + i := src ! i]) [0..<length src] dst)"
  then have p: "p < length dst" by simp
  show "fold (\<lambda>i d. d[off + i := src ! i]) [0..<length src] dst ! p
      = (take off dst @ src @ drop (off + length src) dst) ! p"
  proof (cases "off \<le> p \<and> p < off + length src")
    case True
    then obtain i where i: "i < length src" "p = off + i"
      by (metis add_diff_inverse_nat less_diff_conv2 nat_add_left_cancel_less not_less)
    have "fold (\<lambda>i d. d[off + i := src ! i]) [0..<length src] dst ! (off + i) = src ! i"
      by (rule fold_update_hit [OF i(1)]) (use i p in \<open>auto simp: inj_on_def\<close>)
    then show ?thesis using i assms by (simp add: nth_append)
  next
    case False
    then have "\<forall>i \<in> set [0..<length src]. off + i \<noteq> p" by auto
    then have "fold (\<lambda>i d. d[off + i := src ! i]) [0..<length src] dst ! p = dst ! p"
      by (rule fold_update_miss)
    then show ?thesis using False assms p by (auto simp: nth_append)
  qed
qed

lemma memcpy_at_in_range:
  assumes "off + length src \<le> length dst"
  shows "memcpy_at dst off src (length src)
       = Some (take off dst @ src @ drop (off + length src) dst)"
  using assms by (simp add: memcpy_at_def copy_in_range)

lemma memcpy_at_length:
  "memcpy_at dst off src n = Some d \<Longrightarrow> length d = length dst"
  by (auto simp: memcpy_at_def split: if_splits)

lemma memcpy_at_overrun: "memcpy_at dst off src n = None \<longleftrightarrow> length dst < off + n"
  by (auto simp: memcpy_at_def)
section \<open>The correlator: counting bits\<close>

lemma pcn_0 [simp]: "pcn 0 = 0"
  by (simp add: pcn.simps)

lemma pcn_double [simp]: "pcn (2 * m) = pcn m"
  by (cases "m = 0") (simp_all add: pcn.simps [of "2 * m"])

lemma pcn_double_Suc [simp]: "pcn (Suc (2 * m)) = Suc (pcn m)"
  by (simp add: pcn.simps [of "Suc (2 * m)"])

lemma pcn_and_pred: "0 < n \<Longrightarrow> Suc (pcn (n AND (n - 1))) = pcn n"
proof (induction n rule: less_induct)
  case (less n)
  show ?case
  proof (cases "even n")
    case True
    then obtain m where m: "n = 2 * m" by (auto elim: evenE)
    with less.prems have mpos: "0 < m" by simp
    have pred: "n - 1 = Suc (2 * (m - 1))" using m mpos by simp
    have "n AND (n - 1) = 2 * (m AND (m - 1))"
      unfolding pred unfolding m by (simp add: and_nat_rec [of "2 * m"])
    moreover have "Suc (pcn (m AND (m - 1))) = pcn m"
      using less.IH [of m] m mpos by simp
    ultimately show ?thesis using m by simp
  next
    case False
    then obtain m where m: "n = Suc (2 * m)" by (auto elim: oddE)
    have "n AND (n - 1) = 2 * m"
      unfolding m by (simp add: and_nat_rec [of "Suc (2 * m)"])
    then show ?thesis using m by simp
  qed
qed

lemma pcn_bound: "n < 2 ^ k \<Longrightarrow> pcn n \<le> k \<and> (pcn n = k \<longrightarrow> n = 2 ^ k - 1)"
proof (induction k arbitrary: n)
  case 0
  then show ?case by simp
next
  case (Suc k)
  show ?case
  proof (cases "even n")
    case True
    then obtain m where m: "n = 2 * m" by (auto elim: evenE)
    with Suc.prems have "m < 2 ^ k" by simp
    from Suc.IH [OF this] have "pcn m \<le> k" by simp
    then show ?thesis using m by simp
  next
    case False
    then obtain m where m: "n = Suc (2 * m)" by (auto elim: oddE)
    with Suc.prems have "m < 2 ^ k" by simp
    from Suc.IH [OF this] have le: "pcn m \<le> k" and eq: "pcn m = k \<longrightarrow> m = 2 ^ k - 1" by simp_all
    obtain p where p: "(2::nat) ^ k = Suc p" by (cases "(2::nat) ^ k") simp_all
    then have "Suc (2 * (2 ^ k - 1)) = 2 ^ Suc k - (1::nat)" by simp
    then show ?thesis using m le eq by auto
  qed
qed

lemma pcn_ones: "pcn (2 ^ k - 1) = k"
proof (induction k)
  case 0
  then show ?case by simp
next
  case (Suc k)
  obtain p where p: "(2::nat) ^ k = Suc p" by (cases "(2::nat) ^ k") simp_all
  then have "2 ^ Suc k - (1::nat) = Suc (2 * (2 ^ k - 1))" by simp
  then show ?case using Suc.IH by (simp del: power_Suc)
qed

lemma popcount_loop_pcn: "popcount_loop v c = c + int (pcn (unat v))"
proof (induction v c rule: popcount_loop.induct)
  case (1 v corr)
  show ?case
  proof (cases "v = 0")
    case True
    then show ?thesis by (simp add: popcount_loop.simps)
  next
    case False
    then have pos: "0 < unat v" by (simp add: unat_gt_0)
    have "unat (v AND (v - 1)) = unat v AND (unat v - 1)"
      using False by (simp add: unsigned_and_eq unat_minus_one)
    then have "Suc (pcn (unat (v AND (v - 1)))) = pcn (unat v)"
      using pcn_and_pred [OF pos] by simp
    then have "int (pcn (unat (v AND (v - 1)))) + 1 = int (pcn (unat v))"
      by linarith
    with "1.IH" [OF False] False show ?thesis
      by (simp add: popcount_loop.simps [of v])
  qed
qed

lemma pcn_pos: "0 < n \<Longrightarrow> 0 < pcn n"
proof (induction n rule: less_induct)
  case (less n)
  show ?case
  proof (cases "even n")
    case True
    then obtain m where m: "n = 2 * m" by (auto elim: evenE)
    with less.prems less.IH [of m] show ?thesis by simp
  next
    case False
    then obtain m where m: "n = Suc (2 * m)" by (auto elim: oddE)
    then show ?thesis by simp
  qed
qed

lemma pcn_eq_0_iff: "pcn n = 0 \<longleftrightarrow> n = 0"
  using pcn_pos [of n] by (cases "n = 0") simp_all

lemma inverseCorrelateU64_range:
  "0 \<le> inverseCorrelateU64 x y" "inverseCorrelateU64 x y \<le> 64"
proof -
  have "unat (x XOR y) < 2 ^ 64" using unsigned_less [of "x XOR y"] by simp
  from pcn_bound [OF this] show "inverseCorrelateU64 x y \<le> 64"
    by (simp add: inverseCorrelateU64_def popcount_loop_pcn)
  show "0 \<le> inverseCorrelateU64 x y"
    by (simp add: inverseCorrelateU64_def popcount_loop_pcn)
qed

lemma inverseCorrelateU64_eq_0: "inverseCorrelateU64 x y = 0 \<longleftrightarrow> y = x"
proof -
  have "pcn (unat (x XOR y)) = 0 \<longleftrightarrow> x XOR y = 0"
    by (simp add: pcn_eq_0_iff unat_eq_0)
  also have "\<dots> \<longleftrightarrow> y = x" by (metis bit.xor_left_self xor.right_neutral xor_self_eq)
  finally show ?thesis by (simp add: inverseCorrelateU64_def popcount_loop_pcn)
qed

lemma inverseCorrelateU64_eq_64: "inverseCorrelateU64 x y = 64 \<longleftrightarrow> y = NOT x"
proof
  assume h: "inverseCorrelateU64 x y = 64"
  have lt: "unat (x XOR y) < 2 ^ 64" using unsigned_less [of "x XOR y"] by simp
  from h have "pcn (unat (x XOR y)) = 64"
    by (simp add: inverseCorrelateU64_def popcount_loop_pcn)
  with pcn_bound [OF lt] have "unat (x XOR y) = 2 ^ 64 - 1" by simp
  moreover have "unat (- 1 :: u64) = 2 ^ 64 - 1" by (simp add: unsigned_minus_1_eq_mask mask_eq_exp_minus_1)
  ultimately have "x XOR y = - 1" by (simp add: word_unat_eq_iff)
  then show "y = NOT x" by (metis bit.xor_left_self word_bitwise_m1_simps(7))
next
  assume "y = NOT x"
  then have "x XOR y = - 1" by simp
  moreover have "unat (- 1 :: u64) = 2 ^ 64 - 1" by (simp add: unsigned_minus_1_eq_mask mask_eq_exp_minus_1)
  moreover have "pcn (2 ^ 64 - 1) = 64" by (rule pcn_ones)
  ultimately show "inverseCorrelateU64 x y = 64"
    by (simp add: inverseCorrelateU64_def popcount_loop_pcn)
qed

section \<open>The correlator: the sliding window\<close>

lemma length_byte_bits [simp]: "length (byte_bits b) = 8"
  by (simp add: byte_bits_def)

lemma length_frame_bits [simp]: "length (frame_bits frame) = 8 * length frame"
  by (induction frame) (simp_all add: frame_bits_def)

lemma frame_bits_nth:
  "i < length frame \<Longrightarrow> j < 8 \<Longrightarrow> frame_bits frame ! (8 * i + j) = bit (frame ! i) (7 - j)"
proof (induction frame arbitrary: i)
  case Nil
  then show ?case by simp
next
  case (Cons b frame)
  show ?case
  proof (cases i)
    case 0
    with Cons.prems show ?thesis
      by (simp add: frame_bits_def nth_append byte_bits_def)
  next
    case (Suc i')
    with Cons.prems have "i' < length frame" by simp
    from Cons.IH [OF this Cons.prems(2)] Suc show ?thesis
      by (simp add: frame_bits_def nth_append)
  qed
qed

lemma bit_shift_in:
  "bit (shift_in w b) n \<longleftrightarrow> n < 64 \<and> (if n = 0 then b else bit w (n - 1))"
proof -
  have "bit (shift_in w b) n \<longleftrightarrow> (1 \<le> n \<and> n < 64 \<and> bit w (n - 1)) \<or> (n = 0 \<and> b)"
    unfolding shift_in_def by (simp only: bit_or_iff bit_push_bit_iff bit_of_bool_iff possible_bit_word) simp
  then show ?thesis by (cases n) (auto dest: bit_imp_le_length)
qed

lemma bit_foldl_shift_in:
  "bit (foldl shift_in w bs) n \<longleftrightarrow>
     n < 64 \<and> (if n < length bs then rev bs ! n else bit w (n - length bs))"
proof (induction bs arbitrary: n rule: rev_induct)
  case Nil
  then show ?case by (auto dest: bit_imp_le_length)
next
  case (snoc b bs)
  show ?case
  proof (cases n)
    case 0
    then show ?thesis by (simp add: bit_shift_in)
  next
    case (Suc m)
    then show ?thesis by (auto simp: bit_shift_in snoc.IH)
  qed
qed

lemma bit_window_at:
  assumes "k + 64 \<le> 8 * length frame"
  shows "bit (window_at frame k) n \<longleftrightarrow> n < 64 \<and> frame_bits frame ! (k + 63 - n)"
proof -
  let ?bs = "take 64 (drop k (frame_bits frame))"
  have len: "length ?bs = 64" using assms by simp
  have "n < 64 \<Longrightarrow> rev ?bs ! n = frame_bits frame ! (k + 63 - n)"
    using assms by (simp add: rev_nth len)
  then show ?thesis
    unfolding window_at_def bits_val_def bit_foldl_shift_in len by auto
qed

lemma window_at_Suc:
  assumes "k + 64 < 8 * length frame"
  shows "window_at frame (Suc k) = shift_in (window_at frame k) (frame_bits frame ! (k + 64))"
proof (rule bit_word_eqI)
  fix n
  assume "n < LENGTH(64)"
  then have n: "n < 64" by simp
  have a: "Suc k + 64 \<le> 8 * length frame" and b: "k + 64 \<le> 8 * length frame"
    using assms by simp_all
  show "bit (window_at frame (Suc k)) n =
        bit (shift_in (window_at frame k) (frame_bits frame ! (k + 64))) n"
  proof (cases n)
    case 0
    then show ?thesis by (simp add: bit_window_at [OF a] bit_shift_in add.commute)
  next
    case (Suc m)
    then have "Suc k + 63 - n = k + 63 - m" by simp
    with Suc n show ?thesis by (simp add: bit_window_at [OF a] bit_window_at [OF b] bit_shift_in)
  qed
qed

lemma next_bit_eq: "(ucast (drop_bit (7 - j) tmp AND 1 :: u8) :: u64) = of_bool (bit tmp (7 - j))"
  by (rule bit_word_eqI) (auto simp: bit_ucast_iff bit_and_iff bit_drop_bit_eq bit_of_bool_iff bit_1_iff)

lemma push_byte_eq: "push_bit 8 w OR ucast b = foldl shift_in w (byte_bits b)"
proof (rule bit_word_eqI)
  fix n
  assume "n < LENGTH(64)"
  then have n: "n < 64" by simp
  have "rev (byte_bits b) ! n = bit b n" if "n < 8"
  proof -
    have "7 - n < 8" by simp
    then have "[0..<8] ! (7 - n) = 7 - n" by (metis add_0 nth_upt)
    with that show ?thesis by (simp add: rev_nth byte_bits_def)
  qed
  then show "bit (push_bit 8 w OR ucast b) n = bit (foldl shift_in w (byte_bits b)) n"
    using n by (auto simp: bit_foldl_shift_in bit_or_iff bit_push_bit_iff bit_ucast_iff dest: bit_imp_le_length)
qed

section \<open>The correlator: the search with an 8-byte sync word\<close>

lemma byte_loop_flat:
  "byte_loop 8 sw (- 1) frame n s = fold (flat_step sw frame) [8 * n..<8 * n + 8] s"
proof -
  have "[8 * n..<8 * n + 8] = map (\<lambda>j. j + 8 * n) [0..<8]"
    by (simp only: map_add_upt) (simp add: add.commute)
  moreover have "fold (flat_step sw frame \<circ> (\<lambda>j. j + 8 * n)) [0..<8] s
      = fold (bit_step 8 sw (- 1) n (frame ! (8 + n))) [0..<8] s"
    by (rule fold_cong) (auto simp: flat_step_def)
  ultimately show ?thesis by (simp only: byte_loop_def fold_map)
qed

lemma byte_rounds_flat:
  "fold (byte_loop 8 sw (- 1) frame) [0..<n] s = fold (flat_step sw frame) [0..<8 * n] s"
proof (induction n)
  case 0
  then show ?case by simp
next
  case (Suc n)
  have "[0..<8 * Suc n] = [0..<8 * n] @ [8 * n..<8 * n + 8]"
    by (metis add.commute le_add2 mult_Suc_right upt_add_eq_append zero_le)
  then show ?case using Suc.IH by (simp add: byte_loop_flat)
qed

lemma bit_step8_window:
  "window (bit_step 8 sw (- 1) i tmp j s) = shift_in (window s) (bit tmp (7 - j))"
  by (simp add: bit_step_def Let_def shift_in_def next_bit_eq)

lemma bit_step8_absorb:
  assumes "bestCorr s = 0"
  shows "bestCorr (bit_step 8 sw (- 1) i tmp j s) = 0"
    and "bestOffset (bit_step 8 sw (- 1) i tmp j s) = bestOffset s"
    and "inverted (bit_step 8 sw (- 1) i tmp j s) = inverted s"
  using assms inverseCorrelateU64_range [of sw "window s"]
  by (simp_all add: bit_step_def Let_def)

lemma bit_step8_hit:
  assumes "0 < bestCorr s" and "window s = sw"
  shows "bestCorr (bit_step 8 sw (- 1) i tmp j s) = 0"
    and "bestOffset (bit_step 8 sw (- 1) i tmp j s) = int (i * 8 + j)"
    and "inverted (bit_step 8 sw (- 1) i tmp j s) = 0"
proof -
  have "inverseCorrelateU64 sw (window s) = 0"
    using assms(2) by (simp add: inverseCorrelateU64_eq_0)
  then show "bestCorr (bit_step 8 sw (- 1) i tmp j s) = 0"
    and "bestOffset (bit_step 8 sw (- 1) i tmp j s) = int (i * 8 + j)"
    and "inverted (bit_step 8 sw (- 1) i tmp j s) = 0"
    using assms(1) by (simp_all add: bit_step_def Let_def)
qed

lemma bit_step8_hit_inv:
  assumes "0 < bestCorr s" and "window s = NOT sw"
  shows "bestCorr (bit_step 8 sw (- 1) i tmp j s) = 0"
    and "bestOffset (bit_step 8 sw (- 1) i tmp j s) = int (i * 8 + j)"
    and "inverted (bit_step 8 sw (- 1) i tmp j s) = 1"
proof -
  have "inverseCorrelateU64 sw (window s) = 64"
    using assms(2) by (simp add: inverseCorrelateU64_eq_64)
  then show "bestCorr (bit_step 8 sw (- 1) i tmp j s) = 0"
    and "bestOffset (bit_step 8 sw (- 1) i tmp j s) = int (i * 8 + j)"
    and "inverted (bit_step 8 sw (- 1) i tmp j s) = 1"
    using assms(1) by (simp_all add: bit_step_def Let_def)
qed

lemma bit_step8_miss:
  assumes "0 < bestCorr s" and "window s \<noteq> sw" and "window s \<noteq> NOT sw"
  shows "0 < bestCorr (bit_step 8 sw (- 1) i tmp j s)"
proof -
  have "inverseCorrelateU64 sw (window s) \<noteq> 0" "inverseCorrelateU64 sw (window s) \<noteq> 64"
    using assms(2,3) by (simp_all add: inverseCorrelateU64_eq_0 inverseCorrelateU64_eq_64)
  then show ?thesis
    using assms(1) inverseCorrelateU64_range [of sw "window s"]
    by (simp add: bit_step_def Let_def)
qed

lemma take_frame_bits: "take (8 * n) (frame_bits frame) = frame_bits (take n frame)"
proof (induction frame arbitrary: n)
  case Nil
  then show ?case by (simp add: frame_bits_def)
next
  case (Cons b frame)
  show ?case
  proof (cases n)
    case 0
    then show ?thesis by (simp add: frame_bits_def)
  next
    case (Suc m)
    have "take (8 * Suc m) (frame_bits (b # frame)) = byte_bits b @ take (8 * m) (frame_bits frame)"
      by (simp add: frame_bits_def)
    then show ?thesis using Suc Cons.IH [of m] by (simp add: frame_bits_def)
  qed
qed

lemma initial_window:
  "n \<le> length frame \<Longrightarrow>
   fold (\<lambda>i w. push_bit 8 w OR ucast (frame ! i)) [0..<n] w0 = foldl shift_in w0 (frame_bits (take n frame))"
proof (induction n)
  case 0
  then show ?case by (simp add: frame_bits_def)
next
  case (Suc n)
  then have "take (Suc n) frame = take n frame @ [frame ! n]"
    by (simp add: take_Suc_conv_app_nth)
  then show ?case using Suc by (simp add: frame_bits_def push_byte_eq)
qed

lemma initial_window8:
  assumes "8 \<le> length frame"
  shows "fold (\<lambda>i w. push_bit 8 w OR ucast (frame ! i)) [0..<8] 0 = window_at frame 0"
proof -
  have "take 64 (frame_bits frame) = frame_bits (take 8 frame)"
    using take_frame_bits [of 8 frame] by simp
  then show ?thesis using initial_window [OF assms, of 0]
    by (simp add: window_at_def bits_val_def)
qed

lemma flat_step_window:
  assumes "t + 64 < 8 * length frame" and "window s = window_at frame t"
  shows "window (flat_step sw frame t s) = window_at frame (Suc t)"
proof -
  have "t div 8 + 8 < length frame" using assms(1) by simp
  then have "frame_bits frame ! (8 * (8 + t div 8) + t mod 8) = bit (frame ! (8 + t div 8)) (7 - t mod 8)"
    by (intro frame_bits_nth) simp_all
  moreover have "8 * (8 + t div 8) + t mod 8 = t + 64" by simp
  ultimately show ?thesis
    using assms by (simp add: flat_step_def bit_step8_window window_at_Suc)
qed

lemma no_match_prefix:
  assumes "t + 64 \<le> 8 * length frame"
    and "\<forall>k'<t. window_at frame k' \<noteq> sw \<and> window_at frame k' \<noteq> NOT sw"
    and "0 < bestCorr s" and "window s = window_at frame 0"
  shows "0 < bestCorr (fold (flat_step sw frame) [0..<t] s)
       \<and> window (fold (flat_step sw frame) [0..<t] s) = window_at frame t"
  using assms
proof (induction t)
  case 0
  then show ?case by simp
next
  case (Suc t)
  let ?s = "fold (flat_step sw frame) [0..<t] s"
  have IH: "0 < bestCorr ?s" "window ?s = window_at frame t"
    using Suc by simp_all
  have nm: "window ?s \<noteq> sw" "window ?s \<noteq> NOT sw" using Suc.prems(2) IH(2) by simp_all
  have "0 < bestCorr (flat_step sw frame t ?s)"
    using bit_step8_miss [OF IH(1) nm] by (simp add: flat_step_def)
  moreover have "window (flat_step sw frame t ?s) = window_at frame (Suc t)"
    using Suc.prems(1) IH(2) by (intro flat_step_window) simp_all
  ultimately show ?case by simp
qed

lemma absorbed_tail:
  assumes "bestCorr s = 0"
  shows "bestCorr (fold (flat_step sw frame) ts s) = 0
       \<and> bestOffset (fold (flat_step sw frame) ts s) = bestOffset s
       \<and> inverted (fold (flat_step sw frame) ts s) = inverted s"
  using assms
proof (induction ts arbitrary: s)
  case Nil
  then show ?case by simp
next
  case (Cons t ts)
  have "bestCorr (flat_step sw frame t s) = 0"
    "bestOffset (flat_step sw frame t s) = bestOffset s"
    "inverted (flat_step sw frame t s) = inverted s"
    using Cons.prems by (simp_all add: flat_step_def bit_step8_absorb)
  with Cons.IH [of "flat_step sw frame t s"] show ?case by simp
qed

lemma correlateU64_8:
  assumes "8 \<le> length frame"
  shows "correlateU64 sw 8 inv0 frame len =
    (if inverseCorrelateU64 sw (window_at frame 0) = 0 then (0, inv0)
     else let s = fold (flat_step sw frame) [0..<8 * (len - 8)]
                    \<lparr>window = window_at frame 0,
                     bestCorr = inverseCorrelateU64 sw (window_at frame 0),
                     bestOffset = 0, inverted = inv0\<rparr>
          in (bestOffset s, inverted s))"
proof -
  have m: "syncMask_of 8 = - 1" by (simp add: syncMask_of_def)
  show ?thesis
    unfolding correlateU64_def m
    by (simp only: Let_def initial_window8 [OF assms] byte_rounds_flat and.right_neutral)
qed

lemma correlate_first_exact:
  assumes len: "8 \<le> len" "len \<le> length frame" and k: "k < 8 * (len - 8)"
    and nomatch: "\<forall>k'<k. window_at frame k' \<noteq> sw \<and> window_at frame k' \<noteq> NOT sw"
    and hit: "window_at frame k = sw \<or> window_at frame k = NOT sw"
  shows "correlateU64 sw 8 inv0 frame len =
           (int k, if window_at frame k = NOT sw then 1 else if k = 0 then inv0 else 0)"
proof (cases "window_at frame 0 = sw")
  case True
  with nomatch have "k = 0" by (cases k) auto
  moreover have "sw \<noteq> NOT sw" by (metis even_not_iff)
  moreover have "8 \<le> length frame" using len by simp
  ultimately show ?thesis using True
    by (simp add: correlateU64_8 inverseCorrelateU64_eq_0)
next
  case False
  define s0 where "s0 = \<lparr>window = window_at frame 0,
    bestCorr = inverseCorrelateU64 sw (window_at frame 0), bestOffset = 0, inverted = inv0\<rparr>"
  have pos0: "0 < bestCorr s0"
    using False inverseCorrelateU64_range(1) [of sw "window_at frame 0"]
      inverseCorrelateU64_eq_0 [of sw "window_at frame 0"]
    by (simp add: s0_def)
  have len8: "8 \<le> length frame" using len by simp
  have res: "correlateU64 sw 8 inv0 frame len =
      (let s = fold (flat_step sw frame) [0..<8 * (len - 8)] s0 in (bestOffset s, inverted s))"
    using False by (simp add: correlateU64_8 [OF len8] inverseCorrelateU64_eq_0 s0_def)
  have split: "[0..<8 * (len - 8)] = [0..<k] @ k # [Suc k..<8 * (len - 8)]"
  proof -
    have "[0..<8 * (len - 8)] = [0..<k] @ [k..<8 * (len - 8)]"
      using k upt_add_eq_append [of 0 k "8 * (len - 8) - k"] by simp
    then show ?thesis using k by (simp add: upt_conv_Cons)
  qed
  let ?sk = "fold (flat_step sw frame) [0..<k] s0"
  have bound: "k + 64 \<le> 8 * length frame" using k len by simp
  have pre: "0 < bestCorr ?sk" "window ?sk = window_at frame k"
    using no_match_prefix [OF bound nomatch pos0] by (simp_all add: s0_def)
  let ?sh = "flat_step sw frame k ?sk"
  have "int (k div 8 * 8 + k mod 8) = int k" by simp
  then have kk: "int (k div 8) * 8 + int (k mod 8) = int k" by (simp only: of_nat_add of_nat_mult of_nat_numeral)
  have hitres: "bestCorr ?sh = 0 \<and> bestOffset ?sh = int k
      \<and> inverted ?sh = (if window_at frame k = NOT sw then 1 else 0)"
  proof (cases "window_at frame k = NOT sw")
    case True
    then show ?thesis
      using bit_step8_hit_inv [OF pre(1), of sw] pre(2) kk by (simp add: flat_step_def)
  next
    case False
    with hit have "window ?sk = sw" using pre(2) by simp
    then show ?thesis
      using bit_step8_hit [OF pre(1), of sw] False kk by (simp add: flat_step_def)
  qed
  have fin: "fold (flat_step sw frame) [0..<8 * (len - 8)] s0
      = fold (flat_step sw frame) [Suc k..<8 * (len - 8)] ?sh"
    by (simp add: split)
  have kpos: "k \<noteq> 0" if "window_at frame k \<noteq> NOT sw"
  proof
    assume "k = 0"
    with hit that have "window_at frame 0 = sw" by simp
    with False show False by simp
  qed
  show ?thesis
    unfolding res fin Let_def
    using absorbed_tail [of ?sh sw frame "[Suc k..<8 * (len - 8)]"] hitres kpos by auto
qed

section \<open>The correlator: the range of the offset, and what the offset depends on\<close>












section \<open>The framer: bits and bytes\<close>

lemma bit_byte_shift_in:
  "bit (byte_shift_in w b) n \<longleftrightarrow> n < 8 \<and> (if n = 0 then b else bit w (n - 1))"
proof -
  have "bit (byte_shift_in w b) n \<longleftrightarrow> (1 \<le> n \<and> n < 8 \<and> bit w (n - 1)) \<or> (n = 0 \<and> b)"
    unfolding byte_shift_in_def
    by (simp only: bit_or_iff bit_push_bit_iff bit_of_bool_iff possible_bit_word) simp
  then show ?thesis by (cases n) (auto dest: bit_imp_le_length)
qed

lemma bit_foldl_byte:
  "bit (foldl byte_shift_in w0 bs) n \<longleftrightarrow>
     n < 8 \<and> (if n < length bs then rev bs ! n else bit w0 (n - length bs))"
proof (induction bs arbitrary: n rule: rev_induct)
  case Nil
  then show ?case by (auto dest: bit_imp_le_length)
next
  case (snoc b bs)
  show ?case
  proof (cases n)
    case 0
    then show ?thesis by (simp add: bit_byte_shift_in)
  next
    case (Suc m)
    then show ?thesis by (auto simp: bit_byte_shift_in snoc.IH)
  qed
qed

lemma rev_byte_bits_nth: "n < 8 \<Longrightarrow> rev (byte_bits b) ! n = bit b n"
proof -
  assume n: "n < 8"
  have "7 - n < 8" by simp
  then have "[0..<8] ! (7 - n) = 7 - n" by (metis add_0 nth_upt)
  with n show ?thesis by (simp add: rev_nth byte_bits_def)
qed

lemma byte_of_byte_bits [simp]: "byte_of_bits (byte_bits b) = b"
  by (rule bit_word_eqI) (simp add: byte_of_bits_def bit_foldl_byte rev_byte_bits_nth)

lemma byte_bits_of_bits: "length bs = 8 \<Longrightarrow> byte_bits (byte_of_bits bs) = bs"
proof (rule nth_equalityI)
  assume l: "length bs = 8"
  then show "length (byte_bits (byte_of_bits bs)) = length bs" by simp
  fix j
  assume "j < length (byte_bits (byte_of_bits bs))"
  then have j: "j < 8" by simp
  then have "byte_bits (byte_of_bits bs) ! j = bit (byte_of_bits bs) (7 - j)"
    by (simp add: byte_bits_def)
  also have "\<dots> = rev bs ! (7 - j)"
  proof -
    have "7 - j < 8" by simp
    then show ?thesis using l by (simp add: byte_of_bits_def bit_foldl_byte)
  qed
  also have "\<dots> = bs ! j" using l j by (simp add: rev_nth)
  finally show "byte_bits (byte_of_bits bs) ! j = bs ! j" .
qed

lemma length_bytes_of_bits [simp]: "length (bytes_of_bits bs) = length bs div 8"
  by (simp add: bytes_of_bits_def)


lemma frame_bits_Nil [simp]: "frame_bits [] = []"
  by (simp add: frame_bits_def)

lemma frame_bits_Cons: "frame_bits (b # bs) = byte_bits b @ frame_bits bs"
  by (simp add: frame_bits_def)

lemma drop_frame_bits: "drop (8 * n) (frame_bits frame) = frame_bits (drop n frame)"
proof (induction frame arbitrary: n)
  case Nil
  then show ?case by simp
next
  case (Cons b frame)
  show ?case
  proof (cases n)
    case 0
    then show ?thesis by simp
  next
    case (Suc m)
    then show ?thesis using Cons.IH [of m] by (simp add: frame_bits_Cons)
  qed
qed

lemma bytes_of_frame_bits [simp]: "bytes_of_bits (frame_bits raw) = raw"
proof (rule nth_equalityI)
  show "length (bytes_of_bits (frame_bits raw)) = length raw" by simp
  fix i
  assume "i < length (bytes_of_bits (frame_bits raw))"
  then have i: "i < length raw" by simp
  have "take 8 (drop (8 * i) (frame_bits raw)) = take 8 (frame_bits (drop i raw))"
    by (simp add: drop_frame_bits)
  also have "drop i raw = raw ! i # drop (Suc i) raw"
    using i by (simp add: Cons_nth_drop_Suc)
  finally have "take 8 (drop (8 * i) (frame_bits raw)) = byte_bits (raw ! i)"
    by (simp add: frame_bits_Cons)
  then show "bytes_of_bits (frame_bits raw) ! i = raw ! i"
    using i by (simp add: bytes_of_bits_def)
qed

lemma bytes_of_bits_Nil [simp]: "bytes_of_bits [] = []"
  by (simp add: bytes_of_bits_def)

lemma frame_bits_bytes_of:
  "8 dvd length bs \<Longrightarrow> frame_bits (bytes_of_bits bs) = bs"
proof (induction "length bs div 8" arbitrary: bs)
  case 0
  then have "length bs = 0" by (auto elim: dvdE)
  then show ?case by simp
next
  case (Suc k)
  from Suc.prems obtain m where m: "length bs = 8 * m" by (auto elim: dvdE)
  with Suc.hyps(2) have mk: "m = Suc k" by simp
  have l8: "length (take 8 bs) = 8" using m mk by simp
  have ld: "length (drop 8 bs) = 8 * k" using m mk by simp
  have "[0..<length bs div 8] = 0 # map Suc [0..<k]"
    using m mk by (simp add: upt_conv_Cons map_Suc_upt del: upt_Suc)
  then have "bytes_of_bits bs
      = byte_of_bits (take 8 bs) # map (\<lambda>i. byte_of_bits (take 8 (drop (8 * Suc i) bs))) [0..<k]"
    by (simp add: bytes_of_bits_def comp_def)
  also have "map (\<lambda>i. byte_of_bits (take 8 (drop (8 * Suc i) bs))) [0..<k]
      = bytes_of_bits (drop 8 bs)"
    using ld by (simp add: bytes_of_bits_def add.commute)
  finally have "frame_bits (bytes_of_bits bs)
      = byte_bits (byte_of_bits (take 8 bs)) @ frame_bits (bytes_of_bits (drop 8 bs))"
    by (simp add: frame_bits_Cons)
  moreover have "frame_bits (bytes_of_bits (drop 8 bs)) = drop 8 bs"
    using ld by (intro Suc.hyps(1)) simp_all
  ultimately show ?case by (simp add: byte_bits_of_bits [OF l8])
qed

lemma bytes_of_bits_inject:
  "8 dvd length xs \<Longrightarrow> 8 dvd length ys \<Longrightarrow> bytes_of_bits xs = bytes_of_bits ys \<Longrightarrow> xs = ys"
  by (metis frame_bits_bytes_of)


section \<open>The framer: the operations on the buffer\<close>







lemma read_bytes_Nil:
  assumes "CEILDIV (m_dataOffset fr) 8 \<le> length (m_rawData fr)"
  shows "read_bytes fr [] = Some fr"
proof -
  have "memcpy_at (m_rawData fr) (CEILDIV (m_dataOffset fr) 8) [] 0 = Some (m_rawData fr)"
    using assms by (simp add: memcpy_at_def)
  moreover have "bitpack (m_rawData fr) d s r 0 = m_rawData fr" for d s r
    by (simp add: bitpack_def Let_def)
  ultimately show ?thesis by (simp add: read_bytes_def Let_def)
qed

section \<open>The framer: the machine on bits\<close>










section \<open>The framer: the correlator on the first bytes of the buffer\<close>




section \<open>The framer: one round of the loop and the machine on bits\<close>






















section \<open>The calibration bitmap\<close>

lemma bit_clear_mask:
  "bit (word_of_int (NOT (2 ^ r)) :: u8) m \<longleftrightarrow> m < 8 \<and> m \<noteq> r"
  by (auto simp: bit_word_of_int_iff bit_not_iff bit_exp_iff)

lemma bitmap_bit_update:
  assumes "frag_seq < 8 * length bm" and "n < 8 * length bm"
  shows "bitmap_bit (bm[frag_seq div 8 :=
            (bm ! (frag_seq div 8)) AND word_of_int (NOT (2 ^ (frag_seq mod 8)))]) n
         \<longleftrightarrow> bitmap_bit bm n \<and> n \<noteq> frag_seq"
proof -
  have q: "frag_seq div 8 < length bm" and nq: "n div 8 < length bm"
    using assms by simp_all
  have m8: "n mod 8 < 8" by simp
  show ?thesis
  proof (cases "n div 8 = frag_seq div 8")
    case True
    have "n = frag_seq \<longleftrightarrow> n mod 8 = frag_seq mod 8"
      using True by (metis div_mult_mod_eq)
    then show ?thesis
      using True q m8 by (simp add: bitmap_bit_def bit_and_iff bit_clear_mask)
  next
    case False
    then have "n \<noteq> frag_seq" by auto
    with False show ?thesis by (simp add: bitmap_bit_def)
  qed
qed

lemma byte_zero_iff: "(b :: u8) = 0 \<longleftrightarrow> (\<forall>m<8. \<not> bit b m)"
proof
  assume "b = 0" then show "\<forall>m<8. \<not> bit b m" by simp
next
  assume h: "\<forall>m<8. \<not> bit b m"
  show "b = 0" by (rule bit_word_eqI) (use h in simp)
qed

lemma bitmap_all_clear:
  "(\<exists>b \<in> set bm. b \<noteq> 0) \<longleftrightarrow> (\<exists>n < 8 * length bm. bitmap_bit bm n)"
proof
  assume "\<exists>b \<in> set bm. b \<noteq> 0"
  then obtain i where i: "i < length bm" "bm ! i \<noteq> 0" by (auto simp: in_set_conv_nth)
  then obtain m where m: "m < 8" "bit (bm ! i) m" by (auto simp: byte_zero_iff)
  have "8 * i + m < 8 * length bm" using i(1) m(1) by simp
  moreover have "bitmap_bit bm (8 * i + m)" using m by (simp add: bitmap_bit_def)
  ultimately show "\<exists>n < 8 * length bm. bitmap_bit bm n" by blast
next
  assume "\<exists>n < 8 * length bm. bitmap_bit bm n"
  then obtain n where n: "n < 8 * length bm" "bitmap_bit bm n" by blast
  then have "n div 8 < length bm" by simp
  moreover have "bm ! (n div 8) \<noteq> 0" using n(2) by (auto simp: bitmap_bit_def)
  ultimately show "\<exists>b \<in> set bm. b \<noteq> 0" by (metis nth_mem)
qed

lemma updateCalibData_in_range:
  assumes "frag_seq * RS41_CALIB_FRAGSIZE c + RS41_CALIB_FRAGSIZE c \<le> length (m_calibData st)"
    and "frag_seq div 8 < length (m_calibDataBitmap st)"
  shows "m_calibDataBitmap (updateCalibData c frag_seq frag_data st) =
     (m_calibDataBitmap st)[frag_seq div 8 :=
        (m_calibDataBitmap st ! (frag_seq div 8)) AND word_of_int (NOT (2 ^ (frag_seq mod 8)))]"
    and "m_calibrated (updateCalibData c frag_seq frag_data st) \<longleftrightarrow>
     m_calibrated st
     \<or> \<not> (\<exists>b \<in> set (m_calibDataBitmap (updateCalibData c frag_seq frag_data st)). b \<noteq> 0)"
    and "m_overrun (updateCalibData c frag_seq frag_data st) = m_overrun st"
    and "length (m_calibData (updateCalibData c frag_seq frag_data st)) = length (m_calibData st)"
    and "memcpy_at (m_calibData st) (frag_seq * RS41_CALIB_FRAGSIZE c) frag_data
           (RS41_CALIB_FRAGSIZE c)
         = Some (m_calibData (updateCalibData c frag_seq frag_data st))"
proof -
  obtain cd where cd: "memcpy_at (m_calibData st) (frag_seq * RS41_CALIB_FRAGSIZE c) frag_data
      (RS41_CALIB_FRAGSIZE c) = Some cd"
    using assms(1) by (simp add: memcpy_at_def)
  have nl: "\<not> length (m_calibDataBitmap st) \<le> frag_seq div 8" using assms(2) by simp
  show "m_calibDataBitmap (updateCalibData c frag_seq frag_data st) =
     (m_calibDataBitmap st)[frag_seq div 8 :=
        (m_calibDataBitmap st ! (frag_seq div 8)) AND word_of_int (NOT (2 ^ (frag_seq mod 8)))]"
    by (simp add: updateCalibData_def Let_def cd nl)
  show "m_calibrated (updateCalibData c frag_seq frag_data st) \<longleftrightarrow>
     m_calibrated st
     \<or> \<not> (\<exists>b \<in> set (m_calibDataBitmap (updateCalibData c frag_seq frag_data st)). b \<noteq> 0)"
    by (auto simp: updateCalibData_def Let_def cd nl)
  show "m_overrun (updateCalibData c frag_seq frag_data st) = m_overrun st"
    by (simp add: updateCalibData_def Let_def cd nl)
  have "m_calibData (updateCalibData c frag_seq frag_data st) = cd"
    by (simp add: updateCalibData_def Let_def cd nl)
  then show "memcpy_at (m_calibData st) (frag_seq * RS41_CALIB_FRAGSIZE c) frag_data
           (RS41_CALIB_FRAGSIZE c)
         = Some (m_calibData (updateCalibData c frag_seq frag_data st))"
    and "length (m_calibData (updateCalibData c frag_seq frag_data st)) = length (m_calibData st)"
    using cd memcpy_at_length [OF cd] by simp_all
qed

lemma updateCalibData_out_of_range:
  assumes "length (m_calibData st) < frag_seq * RS41_CALIB_FRAGSIZE c + RS41_CALIB_FRAGSIZE c
           \<or> length (m_calibDataBitmap st) \<le> frag_seq div 8"
  shows "m_overrun (updateCalibData c frag_seq frag_data st)"
proof (cases "memcpy_at (m_calibData st) (frag_seq * RS41_CALIB_FRAGSIZE c) frag_data
      (RS41_CALIB_FRAGSIZE c)")
  case None
  then show ?thesis by (simp add: updateCalibData_def Let_def)
next
  case (Some cd)
  then have "\<not> length (m_calibData st) < frag_seq * RS41_CALIB_FRAGSIZE c + RS41_CALIB_FRAGSIZE c"
    by (auto simp: memcpy_at_def split: if_splits)
  with assms have "length (m_calibDataBitmap st) \<le> frag_seq div 8" by simp
  then show ?thesis by (simp add: updateCalibData_def Let_def Some)
qed

lemma clear_bit_zero: "(0 :: u8) AND w = 0"
  by simp

lemma all_zero_update:
  assumes "\<not> (\<exists>b \<in> set bm. b \<noteq> 0)"
  shows "\<not> (\<exists>b \<in> set (bm[k := (bm ! k) AND w]). (b :: u8) \<noteq> 0)"
proof (cases "k < length bm")
  case True
  then have "bm ! k = 0" using assms by (metis nth_mem)
  then have "bm[k := (bm ! k) AND w] = bm" using True by (simp add: list_update_same_conv)
  then show ?thesis using assms by simp
next
  case False
  then have "length bm \<le> k" by simp
  then have "bm[k := (bm ! k) AND w] = bm" by (rule list_update_beyond)
  then show ?thesis using assms by simp
qed

lemma fold_clear_length [simp]:
  "length (fold (\<lambda>i bm. bm[f i := g i bm]) is bm) = length bm"
  by (induction "is" arbitrary: bm) simp_all

text \<open>A sequence of fragments that all lie within the record and the bitmap.\<close>

lemma updateCalibData_fold:
  assumes "\<forall>i \<in> set is. i * RS41_CALIB_FRAGSIZE c + RS41_CALIB_FRAGSIZE c \<le> length (m_calibData st)
                         \<and> i div 8 < length (m_calibDataBitmap st)"
  shows "m_calibDataBitmap (fold (\<lambda>i. updateCalibData c i (fd i)) is st)
       = fold (\<lambda>i bm. bm[i div 8 := (bm ! (i div 8)) AND word_of_int (NOT (2 ^ (i mod 8)))]) is
           (m_calibDataBitmap st)
     \<and> length (m_calibData (fold (\<lambda>i. updateCalibData c i (fd i)) is st)) = length (m_calibData st)
     \<and> m_overrun (fold (\<lambda>i. updateCalibData c i (fd i)) is st) = m_overrun st
     \<and> (m_calibrated (fold (\<lambda>i. updateCalibData c i (fd i)) is st) \<longleftrightarrow>
          m_calibrated st
          \<or> is \<noteq> [] \<and> \<not> (\<exists>b \<in> set (m_calibDataBitmap
                                  (fold (\<lambda>i. updateCalibData c i (fd i)) is st)). b \<noteq> 0))"
  using assms
proof (induction "is" rule: rev_induct)
  case Nil
  then show ?case by simp
next
  case (snoc i "is")
  let ?u = "\<lambda>i. updateCalibData c i (fd i)"
  let ?st = "fold ?u is st"
  have ih: "m_calibDataBitmap ?st
       = fold (\<lambda>i bm. bm[i div 8 := (bm ! (i div 8)) AND word_of_int (NOT (2 ^ (i mod 8)))]) is
           (m_calibDataBitmap st)"
    "length (m_calibData ?st) = length (m_calibData st)"
    "m_overrun ?st = m_overrun st"
    "m_calibrated ?st \<longleftrightarrow> m_calibrated st
          \<or> is \<noteq> [] \<and> \<not> (\<exists>b \<in> set (m_calibDataBitmap ?st). b \<noteq> 0)"
    using snoc by simp_all
  have lb: "length (m_calibDataBitmap ?st) = length (m_calibDataBitmap st)"
    unfolding ih(1) by (rule fold_clear_length)
  have r: "i * RS41_CALIB_FRAGSIZE c + RS41_CALIB_FRAGSIZE c \<le> length (m_calibData ?st)"
    "i div 8 < length (m_calibDataBitmap ?st)"
    using snoc.prems by (simp_all add: ih(2) lb)
  note u = updateCalibData_in_range [OF r, of "fd i"]
  have f: "fold ?u (is @ [i]) st = updateCalibData c i (fd i) ?st" by simp
  have z: "\<not> (\<exists>b \<in> set (m_calibDataBitmap (updateCalibData c i (fd i) ?st)). b \<noteq> 0)"
    if "\<not> (\<exists>b \<in> set (m_calibDataBitmap ?st). b \<noteq> 0)"
    unfolding u(1) using that by (rule all_zero_update)
  have 1: "m_calibDataBitmap (fold ?u (is @ [i]) st)
       = fold (\<lambda>i bm. bm[i div 8 := (bm ! (i div 8)) AND word_of_int (NOT (2 ^ (i mod 8)))])
           (is @ [i]) (m_calibDataBitmap st)"
    unfolding f u(1) ih(1) by simp
  have 2: "length (m_calibData (fold ?u (is @ [i]) st)) = length (m_calibData st)"
    unfolding f u(4) ih(2) ..
  have 3: "m_overrun (fold ?u (is @ [i]) st) = m_overrun st"
    unfolding f u(3) ih(3) ..
  have 4: "m_calibrated (fold ?u (is @ [i]) st) \<longleftrightarrow> m_calibrated st
          \<or> is @ [i] \<noteq> [] \<and> \<not> (\<exists>b \<in> set (m_calibDataBitmap (fold ?u (is @ [i]) st)). b \<noteq> 0)"
    unfolding f using u(2) ih(4) z by blast
  from 1 2 3 4 show ?case by blast
qed

section \<open>The walk over the sub-records\<close>

text \<open>The model of \<^verbatim>\<open>crc16\<close> gives the check value of CRC-16/CCITT-FALSE.\<close>

lemma crc16_check_value:
  "crc16 CCITT_FALSE_POLY CCITT_FALSE_INIT [0x31, 0x32, 0x33, 0x34, 0x35, 0x36, 0x37, 0x38, 0x39] = 0x29B1"
  by code_simp

lemma subframe_walk_eq:
  "subframe_walk upd data bytesLeft offset acc =
     Some (foldl (\<lambda>a sub. upd a data sub) acc
             (filter (crcCheck data) (inbound_records data bytesLeft offset)))"
proof (induction data bytesLeft offset arbitrary: acc rule: inbound_records.induct)
  case (1 data bytesLeft offset)
  let ?next = "offset + (subframe_len data offset + 4)"
  show ?case
  proof (cases "offset < bytesLeft \<and> ?next \<le> bytesLeft")
    case True
    then have rec: "inbound_records data bytesLeft offset
        = offset # inbound_records data bytesLeft ?next"
      by (simp add: inbound_records.simps [of data bytesLeft offset])
    show ?thesis
      using True "1.IH" [OF True]
      by (subst subframe_walk.simps) (simp add: rec Let_def)
  next
    case False
    then have "inbound_records data bytesLeft offset = []"
      by (simp add: inbound_records.simps [of data bytesLeft offset])
    with False show ?thesis
      by (subst subframe_walk.simps) (auto simp: Let_def)
  qed
qed

lemma inbound_records_step:
  "offset < bytesLeft \<and> offset + (subframe_len data offset + 4) \<le> bytesLeft \<Longrightarrow>
   inbound_records data bytesLeft offset
     = offset # inbound_records data bytesLeft (offset + (subframe_len data offset + 4))"
  by (subst inbound_records.simps) simp

lemma inbound_records_stop:
  "\<not> (offset < bytesLeft \<and> offset + (subframe_len data offset + 4) \<le> bytesLeft) \<Longrightarrow>
   inbound_records data bytesLeft offset = []"
  by (subst inbound_records.simps) simp

lemma inbound_records_length:
  "4 * length (inbound_records data bytesLeft offset) \<le> bytesLeft - offset"
proof (induction data bytesLeft offset rule: inbound_records.induct)
  case (1 data bytesLeft offset)
  show ?case
  proof (cases "offset < bytesLeft \<and> offset + (subframe_len data offset + 4) \<le> bytesLeft")
    case True
    have "4 * length (inbound_records data bytesLeft
        (offset + (subframe_len data offset + 4)))
        \<le> bytesLeft - (offset + (subframe_len data offset + 4))"
      by (rule "1.IH" [OF True])
    then have "4 + 4 * length (inbound_records data bytesLeft
        (offset + (subframe_len data offset + 4))) \<le> bytesLeft - offset"
      using True by linarith
    then show ?thesis by (simp add: inbound_records_step [OF True])
  next
    case False
    then show ?thesis by (simp add: inbound_records_stop [OF False])
  qed
qed


section \<open>Gathering and scattering the interleaved codewords\<close>

lemma inj_stride: "0 < (s::nat) \<Longrightarrow> inj_on (\<lambda>i. a + (s * i + b)) A"
  by (auto simp: inj_on_def)

lemma inj_shift: "inj_on (\<lambda>i::nat. a + (i + b)) A"
  by (auto simp: inj_on_def)

lemma inj_plus: "inj_on (\<lambda>i::nat. a + i) A"
  by (auto simp: inj_on_def)

lemma deinterleave_length [simp]:
  "length (deinterleave c frame block chunk_len rsBlock) = length rsBlock"
  by (simp add: deinterleave_def)

lemma reinterleave_length [simp]:
  "length (reinterleave c rsBlock block chunk_len frame) = length frame"
  by (simp add: reinterleave_def)

lemma deinterleave_data:
  assumes "i < chunk_len" and "chunk_len \<le> RS41_REEDSOLOMON_K c"
    and "RS41_REEDSOLOMON_K c \<le> length rsBlock"
  shows "deinterleave c frame block chunk_len rsBlock ! i
       = frame ! (offsetof_extended_flag c + (RS41_REEDSOLOMON_INTERLEAVING c * i + block))"
proof -
  have "\<forall>i' \<in> set [0..<RS41_REEDSOLOMON_T c]. RS41_REEDSOLOMON_K c + i' \<noteq> i"
    using assms by auto
  then have "deinterleave c frame block chunk_len rsBlock ! i =
      fold (\<lambda>i b. b[i := frame ! (offsetof_extended_flag c
              + (RS41_REEDSOLOMON_INTERLEAVING c * i + block))]) [0..<chunk_len] rsBlock ! i"
    unfolding deinterleave_def by (rule fold_update_miss)
  also have "\<dots> = frame ! (offsetof_extended_flag c + (RS41_REEDSOLOMON_INTERLEAVING c * i + block))"
    using fold_update_hit [of i chunk_len "\<lambda>i. i" rsBlock] assms by simp
  finally show ?thesis .
qed

lemma deinterleave_parity:
  assumes "i < RS41_REEDSOLOMON_T c"
    and "RS41_REEDSOLOMON_K c + RS41_REEDSOLOMON_T c \<le> length rsBlock"
  shows "deinterleave c frame block chunk_len rsBlock ! (RS41_REEDSOLOMON_K c + i)
       = frame ! (offsetof_rs_checksum c + (i + RS41_REEDSOLOMON_T c * block))"
  unfolding deinterleave_def
  using fold_update_hit [of i "RS41_REEDSOLOMON_T c" "\<lambda>i. RS41_REEDSOLOMON_K c + i" _
      "\<lambda>i. frame ! (offsetof_rs_checksum c + (i + RS41_REEDSOLOMON_T c * block))"] assms
  by (simp add: inj_plus)

lemma deinterleave_padding:
  assumes "chunk_len \<le> j" and "j < RS41_REEDSOLOMON_K c"
  shows "deinterleave c frame block chunk_len rsBlock ! j = rsBlock ! j"
proof -
  have "\<forall>i' \<in> set [0..<RS41_REEDSOLOMON_T c]. RS41_REEDSOLOMON_K c + i' \<noteq> j"
    using assms by auto
  moreover have "\<forall>i' \<in> set [0..<chunk_len]. i' \<noteq> j"
    using assms by auto
  ultimately show ?thesis
    unfolding deinterleave_def by (simp add: fold_update_miss)
qed

lemma parity_index_bound:
  assumes "block < RS41_REEDSOLOMON_INTERLEAVING c" and "i' < RS41_REEDSOLOMON_T c"
  shows "i' + RS41_REEDSOLOMON_T c * block
       < RS41_REEDSOLOMON_T c * RS41_REEDSOLOMON_INTERLEAVING c"
proof -
  have "Suc block \<le> RS41_REEDSOLOMON_INTERLEAVING c" using assms(1) by simp
  then have "RS41_REEDSOLOMON_T c * Suc block
      \<le> RS41_REEDSOLOMON_T c * RS41_REEDSOLOMON_INTERLEAVING c" by (rule mult_le_mono2)
  then show ?thesis using assms(2) by simp
qed

lemma data_index_bound:
  assumes "block < RS41_REEDSOLOMON_INTERLEAVING c" and "i < RS41_REEDSOLOMON_K c"
  shows "RS41_REEDSOLOMON_INTERLEAVING c * i + block
       < RS41_REEDSOLOMON_INTERLEAVING c * RS41_REEDSOLOMON_K c"
proof -
  have "Suc i \<le> RS41_REEDSOLOMON_K c" using assms(2) by simp
  then have "RS41_REEDSOLOMON_INTERLEAVING c * Suc i
      \<le> RS41_REEDSOLOMON_INTERLEAVING c * RS41_REEDSOLOMON_K c" by (rule mult_le_mono2)
  then show ?thesis using assms(1) by simp
qed

lemma wf_rs_layout_disjoint:
  "wf_rs_layout c \<Longrightarrow>
     offsetof_rs_checksum c + RS41_REEDSOLOMON_T c * RS41_REEDSOLOMON_INTERLEAVING c
       \<le> offsetof_extended_flag c
     \<or> offsetof_extended_flag c + RS41_REEDSOLOMON_INTERLEAVING c * RS41_REEDSOLOMON_K c
       \<le> offsetof_rs_checksum c"
  by (simp add: wf_rs_layout_def)

lemma wf_rs_layout_parity_end:
  "wf_rs_layout c \<Longrightarrow>
     offsetof_rs_checksum c + RS41_REEDSOLOMON_T c * RS41_REEDSOLOMON_INTERLEAVING c
       \<le> sizeof_RS41Frame c"
  by (simp add: wf_rs_layout_def)

lemma wf_rs_layout_data_end:
  "wf_rs_layout c \<Longrightarrow>
     offsetof_extended_flag c + RS41_REEDSOLOMON_INTERLEAVING c * RS41_REEDSOLOMON_K c
       \<le> sizeof_RS41Frame c"
  by (simp add: wf_rs_layout_def)

lemma wf_rs_layout_blocks: "wf_rs_layout c \<Longrightarrow> 0 < RS41_REEDSOLOMON_INTERLEAVING c"
  by (simp add: wf_rs_layout_def)

lemma layout_disjoint:
  assumes "wf_rs_layout c" and "block < RS41_REEDSOLOMON_INTERLEAVING c"
    and "i < RS41_REEDSOLOMON_K c" and "i' < RS41_REEDSOLOMON_T c"
  shows "offsetof_rs_checksum c + (i' + RS41_REEDSOLOMON_T c * block)
       \<noteq> offsetof_extended_flag c + (RS41_REEDSOLOMON_INTERLEAVING c * i + block)"
  using wf_rs_layout_disjoint [OF assms(1)]
    parity_index_bound [OF assms(2,4)] data_index_bound [OF assms(2,3)]
  by linarith

lemma parity_in_frame:
  assumes "wf_rs_layout c" and "block < RS41_REEDSOLOMON_INTERLEAVING c"
    and "i' < RS41_REEDSOLOMON_T c"
  shows "offsetof_rs_checksum c + (i' + RS41_REEDSOLOMON_T c * block) < sizeof_RS41Frame c"
  using wf_rs_layout_parity_end [OF assms(1)] parity_index_bound [OF assms(2,3)]
  by linarith

lemma data_in_frame:
  assumes "wf_rs_layout c" and "block < RS41_REEDSOLOMON_INTERLEAVING c"
    and "i < RS41_REEDSOLOMON_K c"
  shows "offsetof_extended_flag c + (RS41_REEDSOLOMON_INTERLEAVING c * i + block)
       < sizeof_RS41Frame c"
  using wf_rs_layout_data_end [OF assms(1)] data_index_bound [OF assms(2,3)]
  by linarith

lemma reinterleave_data:
  assumes "wf_rs_layout c" and "block < RS41_REEDSOLOMON_INTERLEAVING c"
    and "chunk_len \<le> RS41_REEDSOLOMON_K c" and "i < chunk_len"
    and "length frame = sizeof_RS41Frame c"
  shows "reinterleave c rsBlock block chunk_len frame
           ! (offsetof_extended_flag c + (RS41_REEDSOLOMON_INTERLEAVING c * i + block))
       = rsBlock ! i"
proof -
  let ?p = "offsetof_extended_flag c + (RS41_REEDSOLOMON_INTERLEAVING c * i + block)"
  have iK: "i < RS41_REEDSOLOMON_K c" using assms(3,4) by simp
  have "\<forall>i' \<in> set [0..<RS41_REEDSOLOMON_T c].
      offsetof_rs_checksum c + (i' + RS41_REEDSOLOMON_T c * block) \<noteq> ?p"
    using layout_disjoint [OF assms(1,2) iK] by simp
  then have "reinterleave c rsBlock block chunk_len frame ! ?p =
      fold (\<lambda>i f. f[offsetof_extended_flag c + (RS41_REEDSOLOMON_INTERLEAVING c * i + block) :=
              rsBlock ! i]) [0..<chunk_len] frame ! ?p"
    unfolding reinterleave_def by (rule fold_update_miss)
  also have "\<dots> = rsBlock ! i"
  proof (rule fold_update_hit [OF assms(4)])
    show "inj_on (\<lambda>i. offsetof_extended_flag c + (RS41_REEDSOLOMON_INTERLEAVING c * i + block))
        {..<chunk_len}"
      using wf_rs_layout_blocks [OF assms(1)] by (rule inj_stride)
    show "?p < length frame"
      using data_in_frame [OF assms(1,2) iK] assms(5) by simp
  qed
  finally show ?thesis .
qed

lemma reinterleave_parity:
  assumes "wf_rs_layout c" and "block < RS41_REEDSOLOMON_INTERLEAVING c"
    and "i < RS41_REEDSOLOMON_T c" and "length frame = sizeof_RS41Frame c"
  shows "reinterleave c rsBlock block chunk_len frame
           ! (offsetof_rs_checksum c + (i + RS41_REEDSOLOMON_T c * block))
       = rsBlock ! (RS41_REEDSOLOMON_K c + i)"
  unfolding reinterleave_def
proof (rule fold_update_hit [OF assms(3)])
  show "inj_on (\<lambda>i. offsetof_rs_checksum c + (i + RS41_REEDSOLOMON_T c * block))
      {..<RS41_REEDSOLOMON_T c}"
    by (rule inj_shift)
  show "offsetof_rs_checksum c + (i + RS41_REEDSOLOMON_T c * block)
      < length (fold (\<lambda>i f. f[offsetof_extended_flag c
            + (RS41_REEDSOLOMON_INTERLEAVING c * i + block) := rsBlock ! i]) [0..<chunk_len] frame)"
    using parity_in_frame [OF assms(1,2,3)] assms(4) by simp
qed

lemma reinterleave_elsewhere:
  assumes "\<forall>i < chunk_len. p \<noteq> offsetof_extended_flag c + (RS41_REEDSOLOMON_INTERLEAVING c * i + block)"
    and "\<forall>i < RS41_REEDSOLOMON_T c. p \<noteq> offsetof_rs_checksum c + (i + RS41_REEDSOLOMON_T c * block)"
  shows "reinterleave c rsBlock block chunk_len frame ! p = frame ! p"
proof -
  have "\<forall>i \<in> set [0..<RS41_REEDSOLOMON_T c].
      offsetof_rs_checksum c + (i + RS41_REEDSOLOMON_T c * block) \<noteq> p"
    using assms(2) by auto
  moreover have "\<forall>i \<in> set [0..<chunk_len].
      offsetof_extended_flag c + (RS41_REEDSOLOMON_INTERLEAVING c * i + block) \<noteq> p"
    using assms(1) by auto
  ultimately show ?thesis
    unfolding reinterleave_def by (simp add: fold_update_miss)
qed


section \<open>The loop over the frames\<close>

lemma run_frame_eq:
  "run_frame c l ext have_rs stack s frame =
     Some (foldl (\<lambda>a sub. updateSondeData c l ext a (frame_data c ext have_rs stack frame) sub) s
             (valid_records c ext have_rs stack frame))"
  by (simp add: run_frame_def Let_def subframe_walk_eq frame_data_def valid_records_def)

lemma updateSondeData_no_info:
  assumes "subframe_type data sub \<noteq> RS41_SFTYPE_INFO c"
  shows "fst (updateSondeData c l ext s data sub) = fst s"
    and "info_part (snd (updateSondeData c l ext s data sub)) = info_part (snd s)"
  using assms
  by (cases s; simp add: updateSondeData_def info_part_def split: prod.splits)+

lemma updateSondeData_no_gpspos:
  assumes "\<not> (subframe_type data sub \<noteq> RS41_SFTYPE_INFO c
             \<and> subframe_type data sub = RS41_SFTYPE_GPSPOS c)"
  shows "gps_part (snd (updateSondeData c l ext s data sub)) = gps_part (snd s)"
  using assms
  by (cases s) (auto simp: updateSondeData_def gps_part_def Let_def split: prod.splits)

lemma foldl_no_info:
  assumes "\<forall>sub \<in> set subs. subframe_type data sub \<noteq> RS41_SFTYPE_INFO c"
  shows "fst (foldl (\<lambda>a sub. updateSondeData c l ext a data sub) s subs) = fst s
       \<and> info_part (snd (foldl (\<lambda>a sub. updateSondeData c l ext a data sub) s subs))
           = info_part (snd s)"
  using assms
proof (induction subs arbitrary: s)
  case Nil
  then show ?case by simp
next
  case (Cons sub subs)
  have "subframe_type data sub \<noteq> RS41_SFTYPE_INFO c" using Cons.prems by simp
  from updateSondeData_no_info [OF this, of l ext s] Cons.IH [of "updateSondeData c l ext s data sub"]
    Cons.prems
  show ?case by simp
qed

lemma foldl_no_gpspos:
  assumes "\<forall>sub \<in> set subs. \<not> (subframe_type data sub \<noteq> RS41_SFTYPE_INFO c
             \<and> subframe_type data sub = RS41_SFTYPE_GPSPOS c)"
  shows "gps_part (snd (foldl (\<lambda>a sub. updateSondeData c l ext a data sub) s subs))
           = gps_part (snd s)"
  using assms
proof (induction subs arbitrary: s)
  case Nil
  then show ?case by simp
next
  case (Cons sub subs)
  have "\<not> (subframe_type data sub \<noteq> RS41_SFTYPE_INFO c
             \<and> subframe_type data sub = RS41_SFTYPE_GPSPOS c)" using Cons.prems by simp
  from updateSondeData_no_gpspos [OF this, of l ext s]
    Cons.IH [of "updateSondeData c l ext s data sub"] Cons.prems
  show ?case by simp
qed

lemma run_frame_carries:
  obtains s' where "run_frame c l ext have_rs stack s frame = Some s'"
    and "\<not> has_info c ext have_rs stack frame \<Longrightarrow> fst s' = fst s \<and> info_part (snd s') = info_part (snd s)"
    and "\<not> has_gpspos c ext have_rs stack frame \<Longrightarrow> gps_part (snd s') = gps_part (snd s)"
proof -
  let ?s' = "foldl (\<lambda>a sub. updateSondeData c l ext a (frame_data c ext have_rs stack frame) sub) s
             (valid_records c ext have_rs stack frame)"
  have a: "run_frame c l ext have_rs stack s frame = Some ?s'" by (rule run_frame_eq)
  have b: "fst ?s' = fst s \<and> info_part (snd ?s') = info_part (snd s)"
    if "\<not> has_info c ext have_rs stack frame"
    using that by (intro foldl_no_info) (simp add: has_info_def)
  have d: "gps_part (snd ?s') = gps_part (snd s)"
    if "\<not> has_gpspos c ext have_rs stack frame"
    using that by (intro foldl_no_gpspos) (simp add: has_gpspos_def)
  from a b d show ?thesis using that by blast
qed

lemma run_frames_carry:
  "\<exists>st' out. run_frames c l ext have_rs stack s frames = Some (st', out)
     \<and> length out = length frames
     \<and> (\<forall>k < length frames.
          (\<not> has_info c ext have_rs stack (frames ! k) \<longrightarrow>
             info_part (out ! k) = info_part (if k = 0 then snd s else out ! (k - 1)))
        \<and> (\<not> has_gpspos c ext have_rs stack (frames ! k) \<longrightarrow>
             gps_part (out ! k) = gps_part (if k = 0 then snd s else out ! (k - 1))))"
proof (induction frames arbitrary: s)
  case Nil
  then show ?case by simp
next
  case (Cons frame frames)
  obtain s' where s': "run_frame c l ext have_rs stack s frame = Some s'"
    and i: "\<not> has_info c ext have_rs stack frame \<Longrightarrow> info_part (snd s') = info_part (snd s)"
    and g: "\<not> has_gpspos c ext have_rs stack frame \<Longrightarrow> gps_part (snd s') = gps_part (snd s)"
    using run_frame_carries [of c l ext have_rs stack s frame] by metis
  from Cons.IH [of s'] obtain st' out where
    r: "run_frames c l ext have_rs stack s' frames = Some (st', out)"
    and len: "length out = length frames"
    and car: "\<forall>k < length frames.
          (\<not> has_info c ext have_rs stack (frames ! k) \<longrightarrow>
             info_part (out ! k) = info_part (if k = 0 then snd s' else out ! (k - 1)))
        \<and> (\<not> has_gpspos c ext have_rs stack (frames ! k) \<longrightarrow>
             gps_part (out ! k) = gps_part (if k = 0 then snd s' else out ! (k - 1)))"
    by blast
  have run: "run_frames c l ext have_rs stack s (frame # frames) = Some (st', snd s' # out)"
    using s' r by simp
  have "(\<not> has_info c ext have_rs stack ((frame # frames) ! k) \<longrightarrow>
             info_part ((snd s' # out) ! k)
               = info_part (if k = 0 then snd s else (snd s' # out) ! (k - 1)))
        \<and> (\<not> has_gpspos c ext have_rs stack ((frame # frames) ! k) \<longrightarrow>
             gps_part ((snd s' # out) ! k)
               = gps_part (if k = 0 then snd s else (snd s' # out) ! (k - 1)))"
    if "k < length (frame # frames)" for k
  proof (cases k)
    case 0
    then show ?thesis using i g by simp
  next
    case (Suc k')
    with that have "k' < length frames" by simp
    with car have "(\<not> has_info c ext have_rs stack (frames ! k') \<longrightarrow>
             info_part (out ! k') = info_part (if k' = 0 then snd s' else out ! (k' - 1)))
        \<and> (\<not> has_gpspos c ext have_rs stack (frames ! k') \<longrightarrow>
             gps_part (out ! k') = gps_part (if k' = 0 then snd s' else out ! (k' - 1)))"
      by blast
    then show ?thesis using Suc by (cases k') simp_all
  qed
  with run len show ?case by simp
qed


section \<open>Error correction and what the run makes of it\<close>

lemma reinterleave_deinterleave:
  assumes wf: "wf_rs_layout c" and b: "block < RS41_REEDSOLOMON_INTERLEAVING c"
    and ch: "chunk_len \<le> RS41_REEDSOLOMON_K c"
    and lf: "length frame = sizeof_RS41Frame c"
    and lb: "RS41_REEDSOLOMON_K c + RS41_REEDSOLOMON_T c \<le> length rsBlock"
  shows "reinterleave c (deinterleave c frame block chunk_len rsBlock) block chunk_len frame = frame"
proof (rule nth_equalityI)
  show "length (reinterleave c (deinterleave c frame block chunk_len rsBlock) block chunk_len frame)
      = length frame" by simp
next
  fix p
  assume "p < length (reinterleave c (deinterleave c frame block chunk_len rsBlock) block chunk_len frame)"
  let ?G = "deinterleave c frame block chunk_len rsBlock"
  have lbK: "RS41_REEDSOLOMON_K c \<le> length rsBlock" using lb by simp
  consider (data) i where "i < chunk_len"
      "p = offsetof_extended_flag c + (RS41_REEDSOLOMON_INTERLEAVING c * i + block)"
    | (parity) i where "i < RS41_REEDSOLOMON_T c"
      "p = offsetof_rs_checksum c + (i + RS41_REEDSOLOMON_T c * block)"
    | (other) "\<forall>i < chunk_len. p \<noteq> offsetof_extended_flag c + (RS41_REEDSOLOMON_INTERLEAVING c * i + block)"
      "\<forall>i < RS41_REEDSOLOMON_T c. p \<noteq> offsetof_rs_checksum c + (i + RS41_REEDSOLOMON_T c * block)"
    by blast
  then show "reinterleave c ?G block chunk_len frame ! p = frame ! p"
  proof cases
    case data
    then show ?thesis
      using reinterleave_data [OF wf b ch data(1) lf, of ?G]
        deinterleave_data [OF data(1) ch lbK, of frame block] by simp
  next
    case parity
    then show ?thesis
      using reinterleave_parity [OF wf b parity(1) lf, of ?G chunk_len]
        deinterleave_parity [OF parity(1) lb, of frame block chunk_len] by simp
  next
    case other
    then show ?thesis by (rule reinterleave_elsewhere)
  qed
qed

lemma rs_block_parts:
  "fst (rs_block c dec n b (f, r, v))
     = reinterleave c (snd (dec (deinterleave c f b n r))) b n f"
  "fst (snd (rs_block c dec n b (f, r, v))) = snd (dec (deinterleave c f b n r))"
  "snd (snd (rs_block c dec n b (f, r, v)))
     = (if fst (dec (deinterleave c f b n r)) < 0 then False else v)"
  by (simp_all add: rs_block_def Let_def case_prod_beta)

lemma rs_block_eq:
  "rs_block c dec n b (f, r, v)
     = (reinterleave c (snd (dec (deinterleave c f b n r))) b n f,
        snd (dec (deinterleave c f b n r)),
        if fst (dec (deinterleave c f b n r)) < 0 then False else v)"
  by (simp add: rs_block_def Let_def case_prod_beta)

lemma rs_fold_unchanged:
  assumes wf: "wf_rs_layout c" and id: "\<forall>blk. snd (dec blk) = blk"
    and ch: "chunk_len \<le> RS41_REEDSOLOMON_K c"
    and lf: "length frame = sizeof_RS41Frame c"
    and lb: "RS41_REEDSOLOMON_K c + RS41_REEDSOLOMON_T c \<le> length rsBlock"
    and bs: "\<forall>b \<in> set bs. b < RS41_REEDSOLOMON_INTERLEAVING c"
  shows "fst (fold (rs_block c dec chunk_len) bs (frame, rsBlock, valid)) = frame"
  using lb bs
proof (induction bs arbitrary: rsBlock valid)
  case Nil
  then show ?case by simp
next
  case (Cons b bs)
  let ?G = "deinterleave c frame b chunk_len rsBlock"
  have b: "b < RS41_REEDSOLOMON_INTERLEAVING c" using Cons.prems(2) by simp
  have step: "rs_block c dec chunk_len b (frame, rsBlock, valid)
      = (frame, ?G, if fst (dec ?G) < 0 then False else valid)"
    using id reinterleave_deinterleave [OF wf b ch lf Cons.prems(1)]
    by (simp add: rs_block_eq)
  have "RS41_REEDSOLOMON_K c + RS41_REEDSOLOMON_T c \<le> length ?G"
    using Cons.prems(1) by simp
  from Cons.IH [OF this] Cons.prems(2) show ?case by (simp add: step)
qed

lemma chunk_len_of_le: "wf_rs_layout c \<Longrightarrow> chunk_len_of c frame \<le> RS41_REEDSOLOMON_K c"
  by (simp add: chunk_len_of_def wf_rs_layout_def)

lemma rsCorrect_unchanged:
  assumes "wf_rs_layout c" and "\<forall>blk. snd (dec blk) = blk"
    and "length frame = sizeof_RS41Frame c" and "length stack = RS41_REEDSOLOMON_N c"
  shows "snd (rsCorrect c dec stack frame) = frame"
proof -
  have "RS41_REEDSOLOMON_K c + RS41_REEDSOLOMON_T c \<le> RS41_REEDSOLOMON_N c"
    using assms(1) by (simp add: wf_rs_layout_def)
  then have lb: "RS41_REEDSOLOMON_K c + RS41_REEDSOLOMON_T c \<le> length (rsBlock_initial c stack frame)"
    using assms(4) by (simp add: rsBlock_initial_def)
  have "fst (fold (rs_block c dec (chunk_len_of c frame)) [0..<RS41_REEDSOLOMON_INTERLEAVING c]
           (frame, rsBlock_initial c stack frame, True)) = frame"
    by (rule rs_fold_unchanged [OF assms(1,2) chunk_len_of_le [OF assms(1)] assms(3) lb]) simp
  then show ?thesis by (auto simp: rsCorrect_def split: prod.splits)
qed

lemma rs_fold_bytes:
  assumes "\<forall>blk. snd (dec' blk) = snd (dec blk)"
  shows "fst (fold (rs_block c dec' n) bs (frame, rsBlock, valid'))
       = fst (fold (rs_block c dec n) bs (frame, rsBlock, valid))"
proof (induction bs arbitrary: frame rsBlock valid valid')
  case Nil
  then show ?case by simp
next
  case (Cons b bs)
  show ?case
    using Cons.IH assms [rule_format, of "deinterleave c frame b n rsBlock"]
    by (simp add: rs_block_eq)
qed

lemma rsCorrect_bytes:
  assumes "\<forall>blk. snd (dec' blk) = snd (dec blk)"
  shows "snd (rsCorrect c dec' stack frame) = snd (rsCorrect c dec stack frame)"
  using rs_fold_bytes [OF assms, of c "chunk_len_of c frame" "[0..<RS41_REEDSOLOMON_INTERLEAVING c]"
      frame "rsBlock_initial c stack frame" True True]
  by (auto simp: rsCorrect_def split: prod.splits)

lemma rs_fold_all_fail:
  assumes "\<forall>blk. fst (dec blk) < 0" and "bs \<noteq> []"
  shows "\<not> snd (snd (fold (rs_block c dec n) bs s))"
  using assms(2)
proof (induction bs arbitrary: s rule: rev_induct)
  case Nil
  then show ?case by simp
next
  case (snoc b bs)
  obtain f r v where "fold (rs_block c dec n) bs s = (f, r, v)"
    by (cases "fold (rs_block c dec n) bs s") auto
  then show ?case
    using assms(1) [rule_format, of "deinterleave c f b n r"]
    by (simp add: rs_block_eq)
qed

lemma rs_fold_none_fail:
  assumes "\<forall>blk. 0 \<le> fst (dec blk)"
  shows "snd (snd (fold (rs_block c dec n) bs (frame, rsBlock, True)))"
proof (induction bs rule: rev_induct)
  case Nil
  then show ?case by simp
next
  case (snoc b bs)
  obtain f r v where s: "fold (rs_block c dec n) bs (frame, rsBlock, True) = (f, r, v)"
    by (cases "fold (rs_block c dec n) bs (frame, rsBlock, True)") auto
  with snoc have v by simp
  then show ?case
    using s assms [rule_format, of "deinterleave c f b n r"]
    by (simp add: rs_block_eq)
qed

lemma rsCorrect_valid_all_fail:
  assumes "\<forall>blk. fst (dec blk) < 0" and "0 < RS41_REEDSOLOMON_INTERLEAVING c"
  shows "\<not> fst (rsCorrect c dec stack frame)"
proof -
  have "[0..<RS41_REEDSOLOMON_INTERLEAVING c] \<noteq> []" using assms(2) by simp
  from rs_fold_all_fail [OF assms(1) this, of c "chunk_len_of c frame"
      "(frame, rsBlock_initial c stack frame, True)"]
  show ?thesis by (auto simp: rsCorrect_def split: prod.splits)
qed

lemma rsCorrect_valid_none_fail:
  assumes "\<forall>blk. 0 \<le> fst (dec blk)"
  shows "fst (rsCorrect c dec stack frame)"
  using rs_fold_none_fail [OF assms, of c "chunk_len_of c frame"
      "[0..<RS41_REEDSOLOMON_INTERLEAVING c]" frame "rsBlock_initial c stack frame"]
  by (auto simp: rsCorrect_def split: prod.splits)

lemma updateSondeData_extern:
  "updateSondeData c l (ext\<lparr>correct_reed_solomon_decode := dec'\<rparr>) = updateSondeData c l ext"
  by (intro ext) (simp add: updateSondeData_def case_prod_beta)

lemma run_frame_status_free:
  assumes "\<forall>blk. snd (dec' blk) = snd (correct_reed_solomon_decode ext blk)"
  shows "run_frame c l (ext\<lparr>correct_reed_solomon_decode := dec'\<rparr>) have_rs stack s frame
       = run_frame c l ext have_rs stack s frame"
  using rsCorrect_bytes [OF assms, of c stack "descramble frame"]
  by (simp add: run_frame_def fec_frame_def updateSondeData_extern)

lemma run_frames_status_free:
  assumes "\<forall>blk. snd (dec' blk) = snd (correct_reed_solomon_decode ext blk)"
  shows "run_frames c l (ext\<lparr>correct_reed_solomon_decode := dec'\<rparr>) have_rs stack s frames
       = run_frames c l ext have_rs stack s frames"
  by (induction frames arbitrary: s)
    (simp_all add: run_frame_status_free [OF assms] split: option.splits)

section \<open>The rounds of the block loop\<close>

lemma rs_round_0: "rs_round c dec stack frame 0 = (frame, rsBlock_initial c stack frame, True)"
  by (simp add: rs_round_def)

lemma rs_round_Suc:
  "rs_round c dec stack frame (Suc b) =
     (reinterleave c (snd (dec (rs_codeword c dec stack frame b))) b (chunk_len_of c frame)
        (fst (rs_round c dec stack frame b)),
      snd (dec (rs_codeword c dec stack frame b)),
      if fst (dec (rs_codeword c dec stack frame b)) < 0 then False
      else snd (snd (rs_round c dec stack frame b)))"
proof -
  obtain f r v where s: "rs_round c dec stack frame b = (f, r, v)"
    by (cases "rs_round c dec stack frame b") auto
  have "rs_round c dec stack frame (Suc b)
      = rs_block c dec (chunk_len_of c frame) b (rs_round c dec stack frame b)"
    by (simp add: rs_round_def)
  then show ?thesis by (simp add: s rs_block_eq rs_codeword_def)
qed

lemma rs_codeword_eq:
  "rs_codeword c dec stack frame b
     = deinterleave c (fst (rs_round c dec stack frame b)) b (chunk_len_of c frame)
         (fst (snd (rs_round c dec stack frame b)))"
  by (simp add: rs_codeword_def case_prod_beta)

lemma rsCorrect_rounds:
  "rsCorrect c dec stack frame
     = (snd (snd (rs_round c dec stack frame (RS41_REEDSOLOMON_INTERLEAVING c))),
        fst (rs_round c dec stack frame (RS41_REEDSOLOMON_INTERLEAVING c)))"
  by (simp add: rsCorrect_def rs_round_def split: prod.splits)

lemma rs_round_valid:
  "snd (snd (rs_round c dec stack frame b))
     \<longleftrightarrow> (\<forall>b' < b. 0 \<le> fst (dec (rs_codeword c dec stack frame b')))"
proof (induction b)
  case 0
  then show ?case by (simp add: rs_round_0)
next
  case (Suc b)
  then show ?case by (auto simp: rs_round_Suc less_Suc_eq)
qed

lemma rsCorrect_valid_iff:
  "fst (rsCorrect c dec stack frame)
     \<longleftrightarrow> (\<forall>b < RS41_REEDSOLOMON_INTERLEAVING c. 0 \<le> fst (dec (rs_codeword c dec stack frame b)))"
  by (simp add: rsCorrect_rounds rs_round_valid)

lemma data_pos_inj:
  assumes "b < (s::nat)" and "b' < s" and "s * i + b = s * i' + b'"
  shows "b = b'" and "i = i'"
proof -
  have "(s * i + b) mod s = (s * i' + b') mod s" using assms(3) by simp
  then show "b = b'" using assms(1,2) by simp
  with assms(3) have "s * i = s * i'" by simp
  then show "i = i'" using assms(1) by simp
qed

lemma parity_pos_inj:
  assumes "i < (t::nat)" and "i' < t" and "i + t * b = i' + t * b'"
  shows "b = b'" and "i = i'"
proof -
  have "(i + t * b) div t = (i' + t * b') div t" using assms(3) by simp
  then show "b = b'" using assms(1,2) by simp
  with assms(3) show "i = i'" by simp
qed

lemma layout_disjoint_blocks:
  assumes "wf_rs_layout c" and "block < RS41_REEDSOLOMON_INTERLEAVING c"
    and "block' < RS41_REEDSOLOMON_INTERLEAVING c"
    and "i < RS41_REEDSOLOMON_K c" and "i' < RS41_REEDSOLOMON_T c"
  shows "offsetof_rs_checksum c + (i' + RS41_REEDSOLOMON_T c * block')
       \<noteq> offsetof_extended_flag c + (RS41_REEDSOLOMON_INTERLEAVING c * i + block)"
  using wf_rs_layout_disjoint [OF assms(1)]
    parity_index_bound [OF assms(3,5)] data_index_bound [OF assms(2,4)]
  by linarith


lemma rsBlock_initial_length:
  "length stack = RS41_REEDSOLOMON_N c \<Longrightarrow> length (rsBlock_initial c stack frame) = RS41_REEDSOLOMON_N c"
  by (simp add: rsBlock_initial_def)

lemma rs_round_lengths:
  assumes "length stack = RS41_REEDSOLOMON_N c" and "\<forall>blk. length (snd (dec blk)) = length blk"
  shows "length (fst (rs_round c dec stack frame b)) = length frame"
    and "length (fst (snd (rs_round c dec stack frame b))) = RS41_REEDSOLOMON_N c"
    and "length (rs_codeword c dec stack frame b) = RS41_REEDSOLOMON_N c"
proof -
  have "length (fst (rs_round c dec stack frame b)) = length frame
      \<and> length (fst (snd (rs_round c dec stack frame b))) = RS41_REEDSOLOMON_N c"
  proof (induction b)
    case 0
    then show ?case by (simp add: rs_round_0 rsBlock_initial_length assms(1))
  next
    case (Suc b)
    then show ?case by (simp add: rs_round_Suc assms(2) rs_codeword_eq)
  qed
  then show "length (fst (rs_round c dec stack frame b)) = length frame"
    and "length (fst (snd (rs_round c dec stack frame b))) = RS41_REEDSOLOMON_N c"
    and "length (rs_codeword c dec stack frame b) = RS41_REEDSOLOMON_N c"
    by (simp_all add: rs_codeword_eq)
qed

lemma rs_round_frame:
  assumes wf: "wf_rs_layout c" and lf: "length frame = sizeof_RS41Frame c"
    and ls: "length stack = RS41_REEDSOLOMON_N c"
    and ld: "\<forall>blk. length (snd (dec blk)) = length blk"
    and b: "b \<le> RS41_REEDSOLOMON_INTERLEAVING c"
  shows "(\<forall>b' i. b' < b \<and> i < chunk_len_of c frame \<longrightarrow>
            fst (rs_round c dec stack frame b)
                ! (offsetof_extended_flag c + (RS41_REEDSOLOMON_INTERLEAVING c * i + b'))
              = snd (dec (rs_codeword c dec stack frame b')) ! i)
       \<and> (\<forall>b' i. b' < b \<and> i < RS41_REEDSOLOMON_T c \<longrightarrow>
            fst (rs_round c dec stack frame b)
                ! (offsetof_rs_checksum c + (i + RS41_REEDSOLOMON_T c * b'))
              = snd (dec (rs_codeword c dec stack frame b')) ! (RS41_REEDSOLOMON_K c + i))
       \<and> (\<forall>p. (\<forall>b' i. b' < b \<and> i < chunk_len_of c frame \<longrightarrow>
                  p \<noteq> offsetof_extended_flag c + (RS41_REEDSOLOMON_INTERLEAVING c * i + b'))
              \<and> (\<forall>b' i. b' < b \<and> i < RS41_REEDSOLOMON_T c \<longrightarrow>
                  p \<noteq> offsetof_rs_checksum c + (i + RS41_REEDSOLOMON_T c * b')) \<longrightarrow>
            fst (rs_round c dec stack frame b) ! p = frame ! p)"
  using b
proof (induction b)
  case 0
  then show ?case by (simp add: rs_round_0)
next
  case (Suc b)
  let ?n = "chunk_len_of c frame"
  let ?I = "RS41_REEDSOLOMON_INTERLEAVING c"
  let ?K = "RS41_REEDSOLOMON_K c"
  let ?T = "RS41_REEDSOLOMON_T c"
  let ?dp = "\<lambda>i b'. offsetof_extended_flag c + (?I * i + b')"
  let ?pp = "\<lambda>i b'. offsetof_rs_checksum c + (i + ?T * b')"
  let ?f = "fst (rs_round c dec stack frame b)"
  let ?out = "\<lambda>b'. snd (dec (rs_codeword c dec stack frame b'))"
  let ?f' = "reinterleave c (?out b) b ?n ?f"
  have bI: "b < ?I" using Suc.prems by simp
  have nK: "?n \<le> ?K" using wf by (rule chunk_len_of_le)
  have lfb: "length ?f = sizeof_RS41Frame c"
    using rs_round_lengths(1) [OF ls ld] lf by simp
  have f': "fst (rs_round c dec stack frame (Suc b)) = ?f'" by (simp add: rs_round_Suc)
  have ih1: "\<And>b' i. b' < b \<Longrightarrow> i < ?n \<Longrightarrow> ?f ! ?dp i b' = ?out b' ! i"
    and ih2: "\<And>b' i. b' < b \<Longrightarrow> i < ?T \<Longrightarrow> ?f ! ?pp i b' = ?out b' ! (?K + i)"
    and ih3: "\<And>p. (\<forall>b' i. b' < b \<and> i < ?n \<longrightarrow> p \<noteq> ?dp i b')
        \<Longrightarrow> (\<forall>b' i. b' < b \<and> i < ?T \<longrightarrow> p \<noteq> ?pp i b') \<Longrightarrow> ?f ! p = frame ! p"
    using Suc.IH bI by simp_all
  have other_data: "?f' ! ?dp i b' = ?f ! ?dp i b'" if "b' < b" "i < ?n" for b' i
  proof (rule reinterleave_elsewhere)
    have b'I: "b' < ?I" using that(1) bI by simp
    show "\<forall>j < ?n. ?dp i b' \<noteq> ?dp j b"
      using data_pos_inj(1) [OF b'I bI] that(1) by fastforce
    have "i < ?K" using that(2) nK by simp
    then show "\<forall>j < ?T. ?dp i b' \<noteq> ?pp j b"
      using layout_disjoint_blocks [OF wf b'I bI] by metis
  qed
  have other_parity: "?f' ! ?pp i b' = ?f ! ?pp i b'" if "b' < b" "i < ?T" for b' i
  proof (rule reinterleave_elsewhere)
    have b'I: "b' < ?I" using that(1) bI by simp
    show "\<forall>j < ?T. ?pp i b' \<noteq> ?pp j b"
      using parity_pos_inj(1) [OF that(2)] that(1) by fastforce
    show "\<forall>j < ?n. ?pp i b' \<noteq> ?dp j b"
    proof (intro allI impI)
      fix j assume "j < ?n"
      then have "j < ?K" using nK by simp
      from layout_disjoint_blocks [OF wf bI b'I this that(2)]
      show "?pp i b' \<noteq> ?dp j b" .
    qed
  qed
  have 1: "?f' ! ?dp i b' = ?out b' ! i" if "b' < Suc b" "i < ?n" for b' i
  proof (cases "b' = b")
    case True
    show ?thesis unfolding True by (rule reinterleave_data [OF wf bI nK that(2) lfb])
  next
    case False
    then have "b' < b" using that(1) by simp
    then show ?thesis using other_data [OF _ that(2)] ih1 [OF _ that(2)] by simp
  qed
  have 2: "?f' ! ?pp i b' = ?out b' ! (?K + i)" if "b' < Suc b" "i < ?T" for b' i
  proof (cases "b' = b")
    case True
    show ?thesis unfolding True by (rule reinterleave_parity [OF wf bI that(2) lfb])
  next
    case False
    then have "b' < b" using that(1) by simp
    then show ?thesis using other_parity [OF _ that(2)] ih2 [OF _ that(2)] by simp
  qed
  have 3: "?f' ! p = frame ! p"
    if d: "\<forall>b' i. b' < Suc b \<and> i < ?n \<longrightarrow> p \<noteq> ?dp i b'"
      and q: "\<forall>b' i. b' < Suc b \<and> i < ?T \<longrightarrow> p \<noteq> ?pp i b'" for p
  proof -
    have "?f' ! p = ?f ! p"
      by (rule reinterleave_elsewhere) (use d q in auto)
    also have "\<dots> = frame ! p"
      by (rule ih3) (use d q in auto)
    finally show ?thesis .
  qed
  from 1 2 3 show ?case unfolding f' by blast
qed


lemma rs_codeword_content:
  assumes wf: "wf_rs_layout c" and lf: "length frame = sizeof_RS41Frame c"
    and ls: "length stack = RS41_REEDSOLOMON_N c"
    and ld: "\<forall>blk. length (snd (dec blk)) = length blk"
    and b: "b < RS41_REEDSOLOMON_INTERLEAVING c"
  shows "i < chunk_len_of c frame \<Longrightarrow>
          rs_codeword c dec stack frame b ! i
            = frame ! (offsetof_extended_flag c + (RS41_REEDSOLOMON_INTERLEAVING c * i + b))"
    and "i < RS41_REEDSOLOMON_T c \<Longrightarrow>
          rs_codeword c dec stack frame b ! (RS41_REEDSOLOMON_K c + i)
            = frame ! (offsetof_rs_checksum c + (i + RS41_REEDSOLOMON_T c * b))"
proof -
  let ?n = "chunk_len_of c frame"
  let ?I = "RS41_REEDSOLOMON_INTERLEAVING c"
  let ?K = "RS41_REEDSOLOMON_K c"
  let ?T = "RS41_REEDSOLOMON_T c"
  let ?dp = "\<lambda>i b'. offsetof_extended_flag c + (?I * i + b')"
  let ?pp = "\<lambda>i b'. offsetof_rs_checksum c + (i + ?T * b')"
  let ?f = "fst (rs_round c dec stack frame b)"
  let ?r = "fst (snd (rs_round c dec stack frame b))"
  have nK: "?n \<le> ?K" using wf by (rule chunk_len_of_le)
  have KT: "?K + ?T \<le> length ?r"
    using rs_round_lengths(2) [OF ls ld, of frame b] wf by (simp add: wf_rs_layout_def)
  then have K: "?K \<le> length ?r" by simp
  have bI: "b \<le> ?I" using b by simp
  note inv = rs_round_frame [OF wf lf ls ld bI]
  have keep: "?f ! p = frame ! p"
    if "\<forall>b' i. b' < b \<and> i < ?n \<longrightarrow> p \<noteq> ?dp i b'"
      and "\<forall>b' i. b' < b \<and> i < ?T \<longrightarrow> p \<noteq> ?pp i b'" for p
    using inv that by blast
  show "rs_codeword c dec stack frame b ! i = frame ! ?dp i b" if i: "i < ?n"
  proof -
    have "rs_codeword c dec stack frame b ! i = ?f ! ?dp i b"
      unfolding rs_codeword_eq by (rule deinterleave_data [OF i nK K])
    also have "\<dots> = frame ! ?dp i b"
    proof (rule keep)
      show "\<forall>b' j. b' < b \<and> j < ?n \<longrightarrow> ?dp i b \<noteq> ?dp j b'"
      proof (intro allI impI)
        fix b' j assume h: "b' < b \<and> j < ?n"
        then have "b' < ?I" using b by simp
        from data_pos_inj(1) [OF b this] h show "?dp i b \<noteq> ?dp j b'" by fastforce
      qed
      show "\<forall>b' j. b' < b \<and> j < ?T \<longrightarrow> ?dp i b \<noteq> ?pp j b'"
      proof (intro allI impI)
        fix b' j assume h: "b' < b \<and> j < ?T"
        then have b': "b' < ?I" using b by simp
        have "i < ?K" using i nK by simp
        from layout_disjoint_blocks [OF wf b b' this] h show "?dp i b \<noteq> ?pp j b'" by metis
      qed
    qed
    finally show ?thesis .
  qed
  show "rs_codeword c dec stack frame b ! (?K + i) = frame ! ?pp i b" if i: "i < ?T"
  proof -
    have "rs_codeword c dec stack frame b ! (?K + i) = ?f ! ?pp i b"
      unfolding rs_codeword_eq by (rule deinterleave_parity [OF i KT])
    also have "\<dots> = frame ! ?pp i b"
    proof (rule keep)
      show "\<forall>b' j. b' < b \<and> j < ?T \<longrightarrow> ?pp i b \<noteq> ?pp j b'"
      proof (intro allI impI)
        fix b' j assume h: "b' < b \<and> j < ?T"
        from parity_pos_inj(1) [OF i] h show "?pp i b \<noteq> ?pp j b'" by fastforce
      qed
      show "\<forall>b' j. b' < b \<and> j < ?n \<longrightarrow> ?pp i b \<noteq> ?dp j b'"
      proof (intro allI impI)
        fix b' j assume h: "b' < b \<and> j < ?n"
        then have b': "b' < ?I" using b by simp
        have "j < ?K" using h nK by simp
        from layout_disjoint_blocks [OF wf b' b this i] show "?pp i b \<noteq> ?dp j b'" .
      qed
    qed
    finally show ?thesis .
  qed
qed

lemma rs_codeword_padding:
  assumes "chunk_len_of c frame \<le> j" and "j < RS41_REEDSOLOMON_K c"
  shows "rs_codeword c dec stack frame 0 ! j = rsBlock_initial c stack frame ! j"
    and "rs_codeword c dec stack frame (Suc b) ! j
           = snd (dec (rs_codeword c dec stack frame b)) ! j"
  using deinterleave_padding [OF assms]
  by (simp_all add: rs_codeword_eq rs_round_0 rs_round_Suc)

lemma rsBlock_initial_zero:
  assumes "frame ! offsetof_extended_flag c \<noteq> RS41_FLAG_EXTENDED c"
    and "j < RS41_REEDSOLOMON_N c"
  shows "rsBlock_initial c stack frame ! j = 0"
  using assms by (simp add: rsBlock_initial_def)

text \<open>What \<^verbatim>\<open>rsCorrect\<close> hands to the decoder and what it makes of the result.\<close>

lemma rsCorrect_blocks:
  assumes wf: "wf_rs_layout c" and lf: "length frame = sizeof_RS41Frame c"
    and ls: "length stack = RS41_REEDSOLOMON_N c"
    and ld: "\<forall>blk. length (snd (dec blk)) = length blk"
  shows
    "(\<forall>b < RS41_REEDSOLOMON_INTERLEAVING c. \<forall>i < chunk_len_of c frame.
        rs_codeword c dec stack frame b ! i
          = frame ! (offsetof_data c + RS41_REEDSOLOMON_INTERLEAVING c * i + b - 1))
     \<and> (\<forall>b < RS41_REEDSOLOMON_INTERLEAVING c. \<forall>i < RS41_REEDSOLOMON_T c.
        rs_codeword c dec stack frame b ! (RS41_REEDSOLOMON_K c + i)
          = frame ! (offsetof_rs_checksum c + i + RS41_REEDSOLOMON_T c * b))
     \<and> (frame ! offsetof_extended_flag c \<noteq> RS41_FLAG_EXTENDED c \<longrightarrow>
        chunk_len_of c frame = (RS41_DATA_LEN c + 1) div RS41_REEDSOLOMON_INTERLEAVING c
        \<and> (\<forall>j. chunk_len_of c frame \<le> j \<and> j < RS41_REEDSOLOMON_K c \<longrightarrow>
              rs_codeword c dec stack frame 0 ! j = 0))
     \<and> (\<forall>b j. chunk_len_of c frame \<le> j \<and> j < RS41_REEDSOLOMON_K c \<longrightarrow>
        rs_codeword c dec stack frame (Suc b) ! j
          = snd (dec (rs_codeword c dec stack frame b)) ! j)
     \<and> (\<forall>b < RS41_REEDSOLOMON_INTERLEAVING c. \<forall>i < chunk_len_of c frame.
        snd (rsCorrect c dec stack frame)
            ! (offsetof_data c + RS41_REEDSOLOMON_INTERLEAVING c * i + b - 1)
          = snd (dec (rs_codeword c dec stack frame b)) ! i)
     \<and> (\<forall>b < RS41_REEDSOLOMON_INTERLEAVING c. \<forall>i < RS41_REEDSOLOMON_T c.
        snd (rsCorrect c dec stack frame)
            ! (offsetof_rs_checksum c + i + RS41_REEDSOLOMON_T c * b)
          = snd (dec (rs_codeword c dec stack frame b)) ! (RS41_REEDSOLOMON_K c + i))
     \<and> (\<forall>p. (\<forall>b < RS41_REEDSOLOMON_INTERLEAVING c. \<forall>i < chunk_len_of c frame.
               p \<noteq> offsetof_data c + RS41_REEDSOLOMON_INTERLEAVING c * i + b - 1)
           \<and> (\<forall>b < RS41_REEDSOLOMON_INTERLEAVING c. \<forall>i < RS41_REEDSOLOMON_T c.
               p \<noteq> offsetof_rs_checksum c + i + RS41_REEDSOLOMON_T c * b) \<longrightarrow>
        snd (rsCorrect c dec stack frame) ! p = frame ! p)
     \<and> length (snd (rsCorrect c dec stack frame)) = length frame"
proof -
  let ?n = "chunk_len_of c frame"
  let ?I = "RS41_REEDSOLOMON_INTERLEAVING c"
  let ?K = "RS41_REEDSOLOMON_K c"
  let ?T = "RS41_REEDSOLOMON_T c"
  have idx: "offsetof_data c + ?I * i + b - 1 = offsetof_extended_flag c + (?I * i + b)" for i b
    by (simp add: offsetof_data_def)
  have pidx: "offsetof_rs_checksum c + i + ?T * b = offsetof_rs_checksum c + (i + ?T * b)" for i b
    by simp
  have KN: "?K \<le> RS41_REEDSOLOMON_N c" using wf by (simp add: wf_rs_layout_def)
  have res: "snd (rsCorrect c dec stack frame) = fst (rs_round c dec stack frame ?I)"
    by (simp add: rsCorrect_rounds)
  note inv = rs_round_frame [OF wf lf ls ld order_refl]
  have g1: "\<forall>b < ?I. \<forall>i < ?n.
      rs_codeword c dec stack frame b ! i = frame ! (offsetof_data c + ?I * i + b - 1)"
    unfolding idx using rs_codeword_content(1) [OF wf lf ls ld] by blast
  have g2: "\<forall>b < ?I. \<forall>i < ?T.
      rs_codeword c dec stack frame b ! (?K + i) = frame ! (offsetof_rs_checksum c + i + ?T * b)"
    unfolding pidx using rs_codeword_content(2) [OF wf lf ls ld] by blast
  have g3: "frame ! offsetof_extended_flag c \<noteq> RS41_FLAG_EXTENDED c \<longrightarrow>
      ?n = (RS41_DATA_LEN c + 1) div ?I
      \<and> (\<forall>j. ?n \<le> j \<and> j < ?K \<longrightarrow> rs_codeword c dec stack frame 0 ! j = 0)"
  proof
    assume ne: "frame ! offsetof_extended_flag c \<noteq> RS41_FLAG_EXTENDED c"
    then have "?n = (RS41_DATA_LEN c + 1) div ?I" by (simp add: chunk_len_of_def)
    moreover have "rs_codeword c dec stack frame 0 ! j = 0" if "?n \<le> j \<and> j < ?K" for j
    proof -
      have "j < RS41_REEDSOLOMON_N c" using that KN by simp
      from rsBlock_initial_zero [OF ne this] rs_codeword_padding(1) [of c frame j dec stack] that
      show ?thesis by simp
    qed
    ultimately show "?n = (RS41_DATA_LEN c + 1) div ?I
      \<and> (\<forall>j. ?n \<le> j \<and> j < ?K \<longrightarrow> rs_codeword c dec stack frame 0 ! j = 0)" by blast
  qed
  have g4: "\<forall>b j. ?n \<le> j \<and> j < ?K \<longrightarrow>
      rs_codeword c dec stack frame (Suc b) ! j = snd (dec (rs_codeword c dec stack frame b)) ! j"
    using rs_codeword_padding(2) by blast
  have s1: "\<forall>b < ?I. \<forall>i < ?n.
      snd (rsCorrect c dec stack frame) ! (offsetof_data c + ?I * i + b - 1)
        = snd (dec (rs_codeword c dec stack frame b)) ! i"
    unfolding idx res using inv by blast
  have s2: "\<forall>b < ?I. \<forall>i < ?T.
      snd (rsCorrect c dec stack frame) ! (offsetof_rs_checksum c + i + ?T * b)
        = snd (dec (rs_codeword c dec stack frame b)) ! (?K + i)"
    unfolding pidx res using inv by blast
  have s3: "\<forall>p. (\<forall>b < ?I. \<forall>i < ?n. p \<noteq> offsetof_data c + ?I * i + b - 1)
           \<and> (\<forall>b < ?I. \<forall>i < ?T. p \<noteq> offsetof_rs_checksum c + i + ?T * b) \<longrightarrow>
      snd (rsCorrect c dec stack frame) ! p = frame ! p"
    unfolding idx pidx res using inv by blast
  have s4: "length (snd (rsCorrect c dec stack frame)) = length frame"
    unfolding res by (rule rs_round_lengths(1) [OF ls ld])
  from g1 g2 g3 g4 s1 s2 s3 s4 show ?thesis by blast
qed


section \<open>The two example frames\<close>

lemma funpow8: "(f ^^ 8) x = f (f (f (f (f (f (f (f x)))))))"
  by (simp add: eval_nat_numeral)

lemma wf_rs41: "wf_rs_layout rs41"
  by (simp add: wf_rs_layout_def rs41_def)

lemma length_frame_status: "length frame_status = 518"
  by (simp add: frame_status_def)

lemma length_frame_blank: "length frame_blank = 518"
  by (simp add: frame_blank_def)

lemma length_plain: "length plain_status = 518" "length plain_blank = 518"
  by (simp_all add: plain_status_def plain_blank_def)

lemma descramble_frame_status: "descramble frame_status = plain_status"
  by code_simp

lemma descramble_frame_blank: "descramble frame_blank = plain_blank"
  by code_simp

lemma identity_decoders:
  "\<forall>blk. snd (correct_reed_solomon_decode extern_rs_fails blk) = blk"
  "\<forall>blk. snd (correct_reed_solomon_decode extern_rs_succeeds blk) = blk"
  by (simp_all add: extern_rs_fails_def extern_rs_succeeds_def)

lemma fec_frame_examples:
  "fec_frame rs41 (Some extern_rs_fails) (replicate 255 0) frame_status = plain_status"
  "fec_frame rs41 (Some extern_rs_fails) (replicate 255 0) frame_blank = plain_blank"
  using rsCorrect_unchanged [OF wf_rs41 identity_decoders(1), of plain_status "replicate 255 0"]
    rsCorrect_unchanged [OF wf_rs41 identity_decoders(1), of plain_blank "replicate 255 0"]
  by (simp_all add: fec_frame_def descramble_frame_status descramble_frame_blank length_plain rs41_def)

lemma bytesLeft_examples:
  "bytesLeft_of rs41 plain_status = 263" "bytesLeft_of rs41 plain_blank = 263"
  by code_simp+

lemma inbound_status:
  "inbound_records (drop 57 plain_status) 263 0 = 0 # map (\<lambda>i. 44 + 4 * i) [0..<54]"
  by code_simp

lemma inbound_blank:
  "inbound_records (drop 57 plain_blank) 263 0 = map (\<lambda>i. 4 * i) [0..<65]"
  by code_simp

lemma invalid_status:
  "filter (crcCheck (drop 57 plain_status)) (map (\<lambda>i. 44 + 4 * i) [0..<54]) = []"
  by code_simp

lemma invalid_blank:
  "filter (crcCheck (drop 57 plain_blank)) (map (\<lambda>i. 4 * i) [0..<65]) = []"
  by code_simp

lemma status_record_bytes:
  "subframe_len (drop 57 plain_status) 0 = 40"
  "map (subframe_data (drop 57 plain_status) 0) [0..<40] =
     [0x05, 0x00, 0x53, 0x31, 0x32, 0x33, 0x34, 0x35, 0x36, 0x37,
      0, 0, 0, 0, 0, 0, 0, 0, 0, 0, 0, 0, 0, 0x32,
      0x11, 0x11, 0x11, 0x11, 0x11, 0x11, 0x11, 0x11,
      0x11, 0x11, 0x11, 0x11, 0x11, 0x11, 0x11, 0x11]"
  "subframe_data (drop 57 plain_status) 0 40 = 0x18"
  "subframe_data (drop 57 plain_status) 0 41 = 0xE0"
  "subframe_type (drop 57 plain_status) 0 = 0x79"
  "le_u16 (drop 57 plain_status) 2 = 5"
  by code_simp+

lemma status_record_crc:
  "crc16 CCITT_FALSE_POLY CCITT_FALSE_INIT
     [0x05, 0x00, 0x53, 0x31, 0x32, 0x33, 0x34, 0x35, 0x36, 0x37,
      0, 0, 0, 0, 0, 0, 0, 0, 0, 0, 0, 0, 0, 0x32,
      0x11, 0x11, 0x11, 0x11, 0x11, 0x11, 0x11, 0x11,
      0x11, 0x11, 0x11, 0x11, 0x11, 0x11, 0x11, 0x11] = 0xE018"
  by (simp add: crc16_def crc16_byte_def crc16_bit_def funpow8
      CCITT_FALSE_POLY_def CCITT_FALSE_INIT_def)

lemma status_record_valid: "crcCheck (drop 57 plain_status) 0"
  by (simp add: crcCheck_def Let_def status_record_bytes status_record_crc)

lemma offsetof_data_rs41: "offsetof_data rs41 = 57"
  by (simp add: offsetof_data_def rs41_def)

lemma frame_data_examples:
  "frame_data rs41 extern_rs_fails True (replicate 255 0) frame_status = drop 57 plain_status"
  "frame_data rs41 extern_rs_fails True (replicate 255 0) frame_blank = drop 57 plain_blank"
  by (simp_all add: frame_data_def fec_frame_examples offsetof_data_rs41)

lemma valid_records_examples:
  "valid_records rs41 extern_rs_fails True (replicate 255 0) frame_status = [0]"
  "valid_records rs41 extern_rs_fails True (replicate 255 0) frame_blank = []"
  by (simp_all add: valid_records_def frame_data_examples fec_frame_examples bytesLeft_examples
      inbound_status inbound_blank invalid_status invalid_blank status_record_valid)

lemma length_frames_of [simp]: "length (frames_of c buf) = length buf div sizeof_RS41Frame c"
  by (simp add: frames_of_def)

lemma frames_of_examples:
  "frames_of rs41 (frame_status @ frame_blank) = [frame_status, frame_blank]"
  "frames_of rs41 frame_status = [frame_status]"
  "frames_of rs41 frame_blank = [frame_blank]"
proof -
  have s: "sizeof_RS41Frame rs41 = 518" by (simp add: rs41_def)
  have u: "[0..<2] = [0, 1]" "[0..<1] = [0]" by (simp_all add: upt_rec)
  show "frames_of rs41 (frame_status @ frame_blank) = [frame_status, frame_blank]"
    by (simp add: frames_of_def s length_frame_status length_frame_blank u)
  show "frames_of rs41 frame_status = [frame_status]"
    by (simp add: frames_of_def s length_frame_status u)
  show "frames_of rs41 frame_blank = [frame_blank]"
    by (simp add: frames_of_def s length_frame_blank u)
qed

lemma updateSondeData_info_seq:
  "subframe_type data sub = RS41_SFTYPE_INFO c \<Longrightarrow>
   seq (snd (updateSondeData c l ext s data sub)) = status_frame_seq l data sub"
  by (cases s) (simp add: updateSondeData_def Let_def)

lemma run_frame_status:
  "run_frame rs41 rs41_layout_std extern_rs_fails True (replicate 255 0) s frame_status
     = Some (updateSondeData rs41 rs41_layout_std extern_rs_fails s (drop 57 plain_status) 0)"
  by (simp add: run_frame_eq valid_records_examples frame_data_examples)

lemma run_frame_blank:
  "run_frame rs41 rs41_layout_std extern_rs_fails True (replicate 255 0) s frame_blank = Some s"
  by (simp add: run_frame_eq valid_records_examples)

lemma rs41_types: "RS41_SFTYPE_INFO rs41 = 0x79" "RS41_SFTYPE_GPSPOS rs41 = 0x7B"
  by (simp_all add: rs41_def)

lemma status_record_frame_seq: "status_frame_seq rs41_layout_std (drop 57 plain_status) 0 = 5"
  by (simp add: rs41_layout_std_def status_record_bytes(6) [unfolded numeral_2_eq_2])

lemma status_record_seq:
  "seq (snd (updateSondeData rs41 rs41_layout_std extern_rs_fails s (drop 57 plain_status) 0)) = 5"
proof -
  have "subframe_type (drop 57 plain_status) 0 = RS41_SFTYPE_INFO rs41"
    by (simp add: status_record_bytes rs41_types)
  from updateSondeData_info_seq [OF this, of rs41_layout_std extern_rs_fails s]
  show ?thesis by (simp add: status_record_frame_seq)
qed

lemma run_two_frames_seq:
  "map_option (\<lambda>r. map seq (snd r))
     (run rs41 rs41_layout_std extern_rs_fails True (replicate 255 0) sonde_fresh
        (init rs41 rs41_blank) (frame_status @ frame_blank)) = Some [5, 5]"
  by (simp add: run_def frames_of_examples run_frame_status run_frame_blank status_record_seq
      split: prod.splits)

lemma run_one_frame_seq:
  "map_option (\<lambda>r. map seq (snd r))
     (run rs41 rs41_layout_std extern_rs_fails True (replicate 255 0) sonde_fresh
        (init rs41 rs41_blank) frame_status) = Some [5]"
  by (simp add: run_def frames_of_examples run_frame_status status_record_seq split: prod.splits)

lemma has_examples:
  "\<not> has_info rs41 extern_rs_fails True (replicate 255 0) frame_blank"
  "\<not> has_gpspos rs41 extern_rs_fails True (replicate 255 0) frame_blank"
  "\<not> has_gpspos rs41 extern_rs_fails True (replicate 255 0) frame_status"
  "has_info rs41 extern_rs_fails True (replicate 255 0) frame_status"
  by (simp_all add: has_info_def has_gpspos_def valid_records_examples frame_data_examples
      status_record_bytes rs41_types)


section \<open>The short frame and the stand-in decoders\<close>

lemma descramble_frame_short: "descramble frame_short = plain_short"
  by code_simp

lemma rs41_short_consts:
  "offsetof_data rs41_short = 57" "offsetof_extended_flag rs41_short = 56"
  "RS41_DATA_LEN rs41_short = 18" "RS41_FLAG_EXTENDED rs41_short = 0xF0"
  "RS41_SFTYPE_INFO rs41_short = 0x79" "RS41_SFTYPE_GPSPOS rs41_short = 0x7B"
  by (simp_all add: rs41_short_def offsetof_data_def rs41_def)

lemma fec_frame_short: "fec_frame rs41_short None stack frame_short = plain_short"
  by (simp add: fec_frame_def descramble_frame_short)

lemma plain_short_flag: "plain_short ! 56 = 0x0F"
  by (simp add: plain_short_def nth_append)

lemma bytesLeft_short: "bytesLeft_of rs41_short plain_short = 18"
  by (simp add: bytesLeft_of_def rs41_short_consts plain_short_flag)

lemma drop_plain_short:
  "drop 57 plain_short = [0x7A, 0x02, 0x01, 0x02, 0x7C, 0x0E, 0x7C, 0x01, 0x09, 0xD9, 0x71,
                         0x7E, 0x00, 0xFF, 0xFF, 0x76, 0xC8, 0x00]"
  by (simp add: plain_short_def)

lemma frame_data_short:
  "frame_data rs41_short ext False stack frame_short
     = [0x7A, 0x02, 0x01, 0x02, 0x7C, 0x0E, 0x7C, 0x01, 0x09, 0xD9, 0x71,
        0x7E, 0x00, 0xFF, 0xFF, 0x76, 0xC8, 0x00]"
  by (simp add: frame_data_def fec_frame_short rs41_short_consts drop_plain_short)

lemma inbound_short:
  "inbound_records [0x7A, 0x02, 0x01, 0x02, 0x7C, 0x0E, 0x7C, 0x01, 0x09, 0xD9, 0x71,
                    0x7E, 0x00, 0xFF, 0xFF, 0x76, 0xC8, 0x00] 18 0 = [0, 6, 11]"
  by code_simp

lemma valid_short:
  "filter (crcCheck [0x7A, 0x02, 0x01, 0x02, 0x7C, 0x0E, 0x7C, 0x01, 0x09, 0xD9, 0x71,
                     0x7E, 0x00, 0xFF, 0xFF, 0x76, 0xC8, 0x00]) [0, 6, 11] = [0, 11]"
  by code_simp

lemma types_short:
  "subframe_type [0x7A, 0x02, 0x01, 0x02, 0x7C, 0x0E, 0x7C, 0x01, 0x09, 0xD9, 0x71,
                  0x7E, 0x00, 0xFF, 0xFF, 0x76, 0xC8, 0x00] 0 = 0x7A"
  "subframe_type [0x7A, 0x02, 0x01, 0x02, 0x7C, 0x0E, 0x7C, 0x01, 0x09, 0xD9, 0x71,
                  0x7E, 0x00, 0xFF, 0xFF, 0x76, 0xC8, 0x00] 11 = 0x7E"
  by (simp_all add: subframe_type_def)

lemma updateSondeData_other:
  "subframe_type data sub \<noteq> RS41_SFTYPE_INFO c \<Longrightarrow>
   subframe_type data sub \<noteq> RS41_SFTYPE_GPSPOS c \<Longrightarrow>
   updateSondeData c l ext s data sub = s"
  by (cases s) (simp add: updateSondeData_def)

lemma plain_status_bytes:
  "plain_status ! 56 = 0x0F" "plain_status ! 57 = 0x79" "plain_status ! 58 = 0x28"
  "plain_status ! 59 = 0x05"
  by (simp_all add: plain_status_def nth_append)

lemma rs41_rs_consts:
  "RS41_REEDSOLOMON_K rs41 = 231" "RS41_REEDSOLOMON_INTERLEAVING rs41 = 2"
  "offsetof_extended_flag rs41 = 56" "RS41_FLAG_EXTENDED rs41 = 0xF0" "RS41_DATA_LEN rs41 = 263"
  "RS41_REEDSOLOMON_N rs41 = 255" "RS41_REEDSOLOMON_T rs41 = 24" "sizeof_RS41Frame rs41 = 518"
  "offsetof_rs_checksum rs41 = 8"
  by (simp_all add: rs41_def)

lemma chunk_len_plain_status: "chunk_len_of rs41 plain_status = 132"
  by (simp add: chunk_len_of_def rs41_rs_consts plain_status_bytes)

lemma decoders_keep_length:
  "\<forall>blk. length (snd (decode_fill blk)) = length blk"
  "\<forall>blk. length (snd (decode_fail_on_flag blk)) = length blk"
  by (simp_all add: decode_fill_def decode_fail_on_flag_def)

section \<open>Claims about the correlator\<close>

text \<open>
  C1 (as amended).  With an 8-byte sync word, where the mask covers all 64 bits of the
  window: if the 64 bits from bit offset \<open>k\<close> on (\<open>k < 8 * (len - 8)\<close>) spell the sync
  pattern or its bitwise inverse, and at no earlier offset the window spells the pattern or
  its inverse, then the correlation returns \<open>k\<close>.  The inversion flag is set to 1 for the
  inverse; for the pattern itself it is set to 0 when \<open>k > 0\<close> and is left as the caller
  had it when \<open>k = 0\<close> (the early return).
\<close>

theorem correlate_returns_first_exact_match:
  assumes "8 \<le> len" and "len \<le> length frame" and "k < 8 * (len - 8)"
    and "\<forall>k'<k. window_at frame k' \<noteq> sw \<and> window_at frame k' \<noteq> NOT sw"
    and "window_at frame k = sw \<or> window_at frame k = NOT sw"
  shows "correlateU64 sw 8 inv0 frame len =
           (int k, if window_at frame k = NOT sw then 1 else if k = 0 then inv0 else 0)"
  using assms by (rule correlate_first_exact)

text \<open>
  The theorem at the RS41 sync word \<open>0x086D53884469481F\<close>, put at bit 37 of a 20-byte
  buffer of one bits.
\<close>

theorem correlate_returns_first_exact_match_witness:
  "correlateU64 0x086D53884469481F 8 0
     [0xFF, 0xFF, 0xFF, 0xFF, 0xF8, 0x43, 0x6A, 0x9C, 0x42, 0x23,
      0x4A, 0x40, 0xFF, 0xFF, 0xFF, 0xFF, 0xFF, 0xFF, 0xFF, 0xFF] 20 = (37, 0)"
proof -
  let ?f = "[0xFF, 0xFF, 0xFF, 0xFF, 0xF8, 0x43, 0x6A, 0x9C, 0x42, 0x23,
      0x4A, 0x40, 0xFF, 0xFF, 0xFF, 0xFF, 0xFF, 0xFF, 0xFF, 0xFF] :: u8 list"
  let ?sw = "0x086D53884469481F :: u64"
  have "\<forall>k'\<in>set [0..<37]. window_at ?f k' \<noteq> ?sw \<and> window_at ?f k' \<noteq> NOT ?sw"
    by code_simp
  then have nm: "\<forall>k'<37. window_at ?f k' \<noteq> ?sw \<and> window_at ?f k' \<noteq> NOT ?sw"
    by simp
  have hit: "window_at ?f 37 = ?sw" by code_simp
  have "(8::nat) \<le> 20" "20 \<le> length ?f" "(37::nat) < 8 * (20 - 8)" by simp_all
  from correlate_returns_first_exact_match [OF this nm, of 0] hit show ?thesis by simp
qed

text \<open>
  C1 as stated fails.  The sync pattern \<open>0xAAAAAAAAAAAAAAAA\<close> stands at bit 37 of the
  buffer, after two zero bits at 35 and 36.  The 64 bits from bit 36 on then spell the
  inverse of the pattern, and the search, which keeps the earliest best offset, returns 36
  with the inversion flag set instead of 37 with the flag clear.
\<close>

theorem correlate_pattern_at_37_counterexample:
  "window_at [0xFF, 0xFF, 0xFF, 0xFF, 0xE5, 0x55, 0x55, 0x55, 0x55, 0x55,
              0x55, 0x55, 0x57, 0xFF, 0xFF, 0xFF, 0xFF, 0xFF, 0xFF, 0xFF] 37
     = 0xAAAAAAAAAAAAAAAA
   \<and> correlateU64 0xAAAAAAAAAAAAAAAA 8 0
       [0xFF, 0xFF, 0xFF, 0xFF, 0xE5, 0x55, 0x55, 0x55, 0x55, 0x55,
        0x55, 0x55, 0x57, 0xFF, 0xFF, 0xFF, 0xFF, 0xFF, 0xFF, 0xFF] 20 = (36, 1)"
proof -
  let ?f = "[0xFF, 0xFF, 0xFF, 0xFF, 0xE5, 0x55, 0x55, 0x55, 0x55, 0x55,
      0x55, 0x55, 0x57, 0xFF, 0xFF, 0xFF, 0xFF, 0xFF, 0xFF, 0xFF] :: u8 list"
  let ?sw = "0xAAAAAAAAAAAAAAAA :: u64"
  have "\<forall>k'\<in>set [0..<36]. window_at ?f k' \<noteq> ?sw \<and> window_at ?f k' \<noteq> NOT ?sw"
    by code_simp
  then have nm: "\<forall>k'<36. window_at ?f k' \<noteq> ?sw \<and> window_at ?f k' \<noteq> NOT ?sw"
    by simp
  have hit: "window_at ?f 36 = NOT ?sw" by code_simp
  have at37: "window_at ?f 37 = ?sw" by code_simp
  have "(8::nat) \<le> 20" "20 \<le> length ?f" "(36::nat) < 8 * (20 - 8)" by simp_all
  from correlate_first_exact [OF this nm, of 0] hit
  have "correlateU64 ?sw 8 0 ?f 20 = (36, 1)" by simp
  with at37 show ?thesis by simp
qed

text \<open>
  C2.  For a sync word of fewer than 8 bytes the mask of the source is the single bit
  \<open>8 * syncLen\<close>, not the low \<open>8 * syncLen\<close> bits.  With the 2-byte sync word
  \<open>0xAAAA\<close> the comparison at offset 0 therefore sees no difference, whatever the buffer
  holds, and the search returns 0 at once: here the buffer starts with two zero bytes, at
  Hamming distance 8 from the pattern, and holds the pattern itself at bit 16.
\<close>

theorem correlate_short_sync_mask_is_one_bit:
  "syncMask_of 2 = 0x10000
   \<and> inverseCorrelateU64 0xAAAA 0x0000 = 8
   \<and> correlateU64 0xAAAA 2 0 [0x00, 0x00, 0xAA, 0xAA, 0x00, 0x00, 0x00, 0x00, 0x00, 0x00] 10
       = (0, 0)"
  by code_simp

section \<open>Claims about the state machine of the framer\<close>



section \<open>Claims about the calibration assembler\<close>

text \<open>
  C5.  With 51 fragments and a bitmap of 7 bytes, \<^verbatim>\<open>init\<close> leaves \<open>0xEE\<close> in the last
  byte: bit 0 (fragment 48, which exists) is cleared and bits 3, 5, 6 and 7 (slots 51, 53,
  54 and 55, which do not exist) stay set.  After all 51 fragments have been applied the
  last byte is \<open>0xE8\<close> and \<^verbatim>\<open>_calibrated\<close> is still false.
\<close>

theorem init_bitmap_blocks_completion:
  "m_calibDataBitmap (init rs41 rs41_blank) = [0xFF, 0xFF, 0xFF, 0xFF, 0xFF, 0xFF, 0xEE]
   \<and> m_calibDataBitmap
        (fold (\<lambda>i. updateCalibData rs41 i (replicate 16 0)) [0..<51] (init rs41 rs41_blank))
       = [0, 0, 0, 0, 0, 0, 0xE8]
   \<and> m_calibrated
        (fold (\<lambda>i. updateCalibData rs41 i (replicate 16 0)) [0..<51] (init rs41 rs41_blank))
       = False"
proof -
  let ?st = "init rs41 rs41_blank"
  let ?u = "\<lambda>i. updateCalibData rs41 i (replicate 16 0)"
  have bm0: "m_calibDataBitmap ?st = [0xFF, 0xFF, 0xFF, 0xFF, 0xFF, 0xFF, 0xEE]"
    by code_simp
  have cd0: "length (m_calibData ?st) = 816"
    by (simp add: init_def rs41_blank_def Let_def)
  have cal0: "\<not> m_calibrated ?st"
    by (simp add: init_def rs41_blank_def Let_def)
  have fs: "RS41_CALIB_FRAGSIZE rs41 = 16" by (simp add: rs41_def)
  have rng: "\<forall>i \<in> set [0..<51].
      i * RS41_CALIB_FRAGSIZE rs41 + RS41_CALIB_FRAGSIZE rs41 \<le> length (m_calibData ?st)
      \<and> i div 8 < length (m_calibDataBitmap ?st)"
    unfolding cd0 bm0 fs by auto
  note f = updateCalibData_fold [OF rng, where fd = "\<lambda>i. replicate 16 0"]
  have cl: "fold (\<lambda>i bm. bm[i div 8 := (bm ! (i div 8)) AND word_of_int (NOT (2 ^ (i mod 8)))])
      [0..<51] [0xFF, 0xFF, 0xFF, 0xFF, 0xFF, 0xFF, 0xEE :: u8] = [0, 0, 0, 0, 0, 0, 0xE8]"
    by code_simp
  have bm: "m_calibDataBitmap (fold ?u [0..<51] ?st) = [0, 0, 0, 0, 0, 0, 0xE8]"
    using f unfolding bm0 cl by blast
  have "m_calibrated (fold ?u [0..<51] ?st) \<longleftrightarrow> m_calibrated ?st
      \<or> [0..<51::nat] \<noteq> [] \<and> \<not> (\<exists>b \<in> set (m_calibDataBitmap (fold ?u [0..<51] ?st)). b \<noteq> 0)"
    using f by blast
  then have "\<not> m_calibrated (fold ?u [0..<51] ?st)"
    unfolding bm using cal0 by simp
  with bm0 bm show ?thesis by simp
qed

text \<open>
  C7 (as amended).  \<^verbatim>\<open>updateCalibData\<close> has no bound check: the declared fragment count
  plays no part in it.  For every fragment index whose 16 bytes lie within the calibration
  record and whose bit lies within the bitmap, it copies the fragment to its place in the
  record, clears exactly the bit of that index, leaves every other bit as it is, and sets
  \<^verbatim>\<open>_calibrated\<close> when no bit of the bitmap is set any more.  For every other index the
  same copy or the same bitmap update is a write outside the array, not a call without
  effect.
\<close>

theorem updateCalibData_unguarded:
  "updateCalibData (c\<lparr>RS41_CALIB_FRAGCOUNT := count\<rparr>) frag_seq frag_data st
     = updateCalibData c frag_seq frag_data st
   \<and> (frag_seq * RS41_CALIB_FRAGSIZE c + RS41_CALIB_FRAGSIZE c \<le> length (m_calibData st)
        \<and> frag_seq < 8 * length (m_calibDataBitmap st)
        \<and> length frag_data = RS41_CALIB_FRAGSIZE c \<longrightarrow>
      m_calibData (updateCalibData c frag_seq frag_data st)
        = take (frag_seq * RS41_CALIB_FRAGSIZE c) (m_calibData st) @ frag_data
            @ drop (frag_seq * RS41_CALIB_FRAGSIZE c + RS41_CALIB_FRAGSIZE c) (m_calibData st)
      \<and> length (m_calibDataBitmap (updateCalibData c frag_seq frag_data st))
           = length (m_calibDataBitmap st)
      \<and> (\<forall>n < 8 * length (m_calibDataBitmap st).
            bitmap_bit (m_calibDataBitmap (updateCalibData c frag_seq frag_data st)) n
              \<longleftrightarrow> bitmap_bit (m_calibDataBitmap st) n \<and> n \<noteq> frag_seq)
      \<and> (m_calibrated (updateCalibData c frag_seq frag_data st)
              \<longleftrightarrow> m_calibrated st
                 \<or> (\<forall>n < 8 * length (m_calibDataBitmap st).
                      \<not> bitmap_bit (m_calibDataBitmap (updateCalibData c frag_seq frag_data st)) n))
      \<and> m_overrun (updateCalibData c frag_seq frag_data st) = m_overrun st)
   \<and> (length (m_calibData st) < frag_seq * RS41_CALIB_FRAGSIZE c + RS41_CALIB_FRAGSIZE c
        \<or> 8 * length (m_calibDataBitmap st) \<le> frag_seq \<longrightarrow>
      m_overrun (updateCalibData c frag_seq frag_data st))"
proof -
  let ?st' = "updateCalibData c frag_seq frag_data st"
  let ?off = "frag_seq * RS41_CALIB_FRAGSIZE c"
  have nocount: "updateCalibData (c\<lparr>RS41_CALIB_FRAGCOUNT := count\<rparr>) frag_seq frag_data st = ?st'"
    by (simp add: updateCalibData_def)
  have inside: "m_calibData ?st'
        = take ?off (m_calibData st) @ frag_data
            @ drop (?off + RS41_CALIB_FRAGSIZE c) (m_calibData st)
      \<and> length (m_calibDataBitmap ?st') = length (m_calibDataBitmap st)
      \<and> (\<forall>n < 8 * length (m_calibDataBitmap st).
            bitmap_bit (m_calibDataBitmap ?st') n
              \<longleftrightarrow> bitmap_bit (m_calibDataBitmap st) n \<and> n \<noteq> frag_seq)
      \<and> (m_calibrated ?st' \<longleftrightarrow> m_calibrated st
            \<or> (\<forall>n < 8 * length (m_calibDataBitmap st). \<not> bitmap_bit (m_calibDataBitmap ?st') n))
      \<and> m_overrun ?st' = m_overrun st"
    if a: "?off + RS41_CALIB_FRAGSIZE c \<le> length (m_calibData st)"
      and b: "frag_seq < 8 * length (m_calibDataBitmap st)"
      and l: "length frag_data = RS41_CALIB_FRAGSIZE c"
  proof -
    have b': "frag_seq div 8 < length (m_calibDataBitmap st)" using b by simp
    note u = updateCalibData_in_range [OF a b', of frag_data]
    have "?off + length frag_data \<le> length (m_calibData st)" using a l by simp
    from memcpy_at_in_range [OF this] u(5)
    have cd: "m_calibData ?st'
        = take ?off (m_calibData st) @ frag_data
            @ drop (?off + RS41_CALIB_FRAGSIZE c) (m_calibData st)"
      by (simp add: l)
    have len: "length (m_calibDataBitmap ?st') = length (m_calibDataBitmap st)"
      unfolding u(1) by simp
    have bits: "\<forall>n < 8 * length (m_calibDataBitmap st).
        bitmap_bit (m_calibDataBitmap ?st') n
          \<longleftrightarrow> bitmap_bit (m_calibDataBitmap st) n \<and> n \<noteq> frag_seq"
      unfolding u(1) using b by (simp add: bitmap_bit_update)
    have cal: "m_calibrated ?st' \<longleftrightarrow> m_calibrated st
        \<or> (\<forall>n < 8 * length (m_calibDataBitmap st). \<not> bitmap_bit (m_calibDataBitmap ?st') n)"
      using u(2) bitmap_all_clear [of "m_calibDataBitmap ?st'"] len by auto
    from cd len bits cal u(3) show ?thesis by blast
  qed
  have outside: "m_overrun ?st'"
    if "length (m_calibData st) < ?off + RS41_CALIB_FRAGSIZE c
        \<or> 8 * length (m_calibDataBitmap st) \<le> frag_seq"
  proof -
    have "8 * length (m_calibDataBitmap st) \<le> frag_seq
        \<Longrightarrow> length (m_calibDataBitmap st) \<le> frag_seq div 8" by simp
    with that show ?thesis by (intro updateCalibData_out_of_range) blast
  qed
  from nocount inside outside show ?thesis by blast
qed

text \<open>
  The theorem on the RS41 decoder after \<^verbatim>\<open>init\<close>, with a calibration record of 51
  fragments: fragment 3 is applied and clears its bit, fragment 51 is a write behind the
  record.
\<close>

theorem updateCalibData_unguarded_witness:
  "bitmap_bit (m_calibDataBitmap (init rs41 rs41_blank)) 3
   \<and> \<not> bitmap_bit (m_calibDataBitmap
            (updateCalibData rs41 3 (replicate 16 0x77) (init rs41 rs41_blank))) 3
   \<and> \<not> m_overrun (updateCalibData rs41 3 (replicate 16 0x77) (init rs41 rs41_blank))
   \<and> m_overrun (updateCalibData rs41 51 (replicate 16 0x77) (init rs41 rs41_blank))"
proof -
  let ?st = "init rs41 rs41_blank"
  have bm0: "m_calibDataBitmap ?st = [0xFF, 0xFF, 0xFF, 0xFF, 0xFF, 0xFF, 0xEE]"
    by code_simp
  have cd0: "length (m_calibData ?st) = 816" "\<not> m_overrun ?st"
    by (simp_all add: init_def rs41_blank_def Let_def)
  have fs: "RS41_CALIB_FRAGSIZE rs41 = 16" by (simp add: rs41_def)
  have b3: "bitmap_bit (m_calibDataBitmap ?st) 3" unfolding bm0 by code_simp
  have h3: "3 * RS41_CALIB_FRAGSIZE rs41 + RS41_CALIB_FRAGSIZE rs41 \<le> length (m_calibData ?st)
      \<and> 3 < 8 * length (m_calibDataBitmap ?st)
      \<and> length (replicate 16 (0x77 :: u8)) = RS41_CALIB_FRAGSIZE rs41"
    unfolding cd0 bm0 fs by simp
  have h51: "length (m_calibData ?st) < 51 * RS41_CALIB_FRAGSIZE rs41 + RS41_CALIB_FRAGSIZE rs41"
    unfolding cd0 fs by simp
  have n3: "(3 :: nat) < 8 * length (m_calibDataBitmap ?st)" unfolding bm0 by simp
  from updateCalibData_unguarded [where c = rs41 and count = 51 and frag_seq = 3
      and frag_data = "replicate 16 0x77" and st = ?st] h3
  have "(\<forall>n < 8 * length (m_calibDataBitmap ?st).
            bitmap_bit (m_calibDataBitmap (updateCalibData rs41 3 (replicate 16 0x77) ?st)) n
              \<longleftrightarrow> bitmap_bit (m_calibDataBitmap ?st) n \<and> n \<noteq> 3)"
    and o3: "m_overrun (updateCalibData rs41 3 (replicate 16 0x77) ?st) = m_overrun ?st"
    by blast+
  with n3 have c3: "\<not> bitmap_bit (m_calibDataBitmap
      (updateCalibData rs41 3 (replicate 16 0x77) ?st)) 3" by blast
  from updateCalibData_unguarded [where c = rs41 and count = 51 and frag_seq = 51
      and frag_data = "replicate 16 0x77" and st = ?st] h51
  have "m_overrun (updateCalibData rs41 51 (replicate 16 0x77) ?st)" by blast
  with b3 c3 o3 cd0(2) show ?thesis by simp
qed

text \<open>
  C7 as stated fails.  The declared range of the RS41 calibration record is \<open>0..50\<close>.
  Index 51 is outside it, and applying it to the decoder after \<^verbatim>\<open>init\<close> is not a call
  without effect: the 16 bytes of the fragment are copied to offset 816, behind the record
  of 816 bytes.  In an object whose record had room for them, the same call would store
  the fragment and clear bit 3 of the last byte of the bitmap, changing it from \<open>0xEE\<close>
  to \<open>0xE6\<close>.
\<close>

theorem out_of_range_fragment_counterexample:
  "RS41_CALIB_FRAGCOUNT rs41 = 51
   \<and> RS41_CALIB_FRAGSIZE rs41 = 16
   \<and> length (m_calibData (init rs41 rs41_blank)) = 816
   \<and> memcpy_at (m_calibData (init rs41 rs41_blank)) (51 * 16) (replicate 16 0x77) 16 = None
   \<and> m_overrun (init rs41 rs41_blank) = False
   \<and> m_overrun (updateCalibData rs41 51 (replicate 16 0x77) (init rs41 rs41_blank)) = True
   \<and> m_calibDataBitmap (init rs41 rs41_blank) = [0xFF, 0xFF, 0xFF, 0xFF, 0xFF, 0xFF, 0xEE]
   \<and> m_calibDataBitmap
        (updateCalibData rs41 51 (replicate 16 0x77)
           ((init rs41 rs41_blank)\<lparr>m_calibData := replicate 832 0\<rparr>))
       = [0xFF, 0xFF, 0xFF, 0xFF, 0xFF, 0xFF, 0xE6]
   \<and> drop 816 (m_calibData
        (updateCalibData rs41 51 (replicate 16 0x77)
           ((init rs41 rs41_blank)\<lparr>m_calibData := replicate 832 0\<rparr>)))
       = replicate 16 0x77"
proof -
  let ?st = "init rs41 rs41_blank"
  let ?big = "?st\<lparr>m_calibData := replicate 832 0\<rparr>"
  have bm0: "m_calibDataBitmap ?st = [0xFF, 0xFF, 0xFF, 0xFF, 0xFF, 0xFF, 0xEE]"
    by code_simp
  have cd0: "length (m_calibData ?st) = 816" "\<not> m_overrun ?st"
    by (simp_all add: init_def rs41_blank_def Let_def)
  have k: "RS41_CALIB_FRAGCOUNT rs41 = 51" "RS41_CALIB_FRAGSIZE rs41 = 16"
    by (simp_all add: rs41_def)
  have none: "memcpy_at (m_calibData ?st) (51 * 16) (replicate 16 0x77) 16 = None"
    by (simp add: memcpy_at_def cd0)
  have "length (m_calibData ?st) < 51 * RS41_CALIB_FRAGSIZE rs41 + RS41_CALIB_FRAGSIZE rs41
      \<or> length (m_calibDataBitmap ?st) \<le> 51 div 8"
    unfolding cd0 k by simp
  then have over: "m_overrun (updateCalibData rs41 51 (replicate 16 0x77) ?st)"
    by (rule updateCalibData_out_of_range)
  have big: "m_calibDataBitmap ?big = [0xFF, 0xFF, 0xFF, 0xFF, 0xFF, 0xFF, 0xEE]"
    "m_calibData ?big = replicate 832 0"
    by (simp_all add: bm0)
  have a: "51 * RS41_CALIB_FRAGSIZE rs41 + RS41_CALIB_FRAGSIZE rs41 \<le> length (m_calibData ?big)"
    and b: "51 div 8 < length (m_calibDataBitmap ?big)"
    unfolding big k by simp_all
  note u = updateCalibData_in_range [OF a b, of "replicate 16 0x77"]
  have bm: "m_calibDataBitmap (updateCalibData rs41 51 (replicate 16 0x77) ?big)
      = [0xFF, 0xFF, 0xFF, 0xFF, 0xFF, 0xFF, 0xE6]"
    unfolding u(1) big by code_simp
  have "51 * 16 + length (replicate 16 (0x77 :: u8)) \<le> length (replicate 832 (0 :: u8))" by simp
  from memcpy_at_in_range [OF this] u(5)
  have "m_calibData (updateCalibData rs41 51 (replicate 16 0x77) ?big)
      = take (51 * 16) (replicate 832 0) @ replicate 16 0x77
          @ drop (51 * 16 + 16) (replicate 832 0)"
    by (simp add: big k)
  then have cd: "drop 816 (m_calibData (updateCalibData rs41 51 (replicate 16 0x77) ?big))
      = replicate 16 0x77" by simp
  from k cd0 none over bm0 bm cd show ?thesis by simp
qed

section \<open>Claims about the walk over the sub-records\<close>

text \<open>
  C4.  For every frame, \<^verbatim>\<open>run\<close> walks the data region of the frame as descrambling and
  error correction have left it, from offset 0 up to the bound \<^verbatim>\<open>bytesLeft\<close>, which is
  the data length plus, in an extended frame, the length of the extended data.  The walk
  ends and has dispatched to \<^verbatim>\<open>updateSondeData\<close> exactly the records that lie within
  the bound and carry a valid checksum, in their order: a record with payload length \<open>n\<close>
  is followed by the record \<open>n + 4\<close> bytes further on, the walk stops before the first
  record whose span would exceed the bound, and a record whose two trailing bytes are not
  the little-endian CRC-16 (polynomial \<open>0x1021\<close>, initial value \<open>0xFFFF\<close>) of its
  payload is passed over while the walk goes on behind it.
\<close>

theorem run_frame_walks_records:
  "run_frame c l ext have_rs stack s frame =
     Some (foldl (\<lambda>a sub. updateSondeData c l ext a (frame_data c ext have_rs stack frame) sub) s
             (filter (crcCheck (frame_data c ext have_rs stack frame))
                (inbound_records (frame_data c ext have_rs stack frame)
                   (bytesLeft_of c (fec_frame c (if have_rs then Some ext else None) stack frame))
                   0)))
   \<and> frame_data c ext have_rs stack frame
       = drop (offsetof_data c) (fec_frame c (if have_rs then Some ext else None) stack frame)
   \<and> bytesLeft_of c fr
       = RS41_DATA_LEN c
         + (if fr ! offsetof_extended_flag c = RS41_FLAG_EXTENDED c then RS41_XDATA_LEN c else 0)
   \<and> inbound_records data bytesLeft offset
       = (if offset < bytesLeft \<and> offset + (unat (data ! (offset + 1)) + 4) \<le> bytesLeft
          then offset # inbound_records data bytesLeft (offset + (unat (data ! (offset + 1)) + 4))
          else [])
   \<and> (crcCheck data sub \<longleftrightarrow>
        crc16 0x1021 0xFFFF (map (\<lambda>i. data ! (sub + 2 + i)) [0..<unat (data ! (sub + 1))])
          = ucast (data ! (sub + 2 + unat (data ! (sub + 1))))
            OR push_bit 8 (ucast (data ! (sub + 2 + (unat (data ! (sub + 1)) + 1)))))"
proof -
  have 1: "run_frame c l ext have_rs stack s frame =
     Some (foldl (\<lambda>a sub. updateSondeData c l ext a (frame_data c ext have_rs stack frame) sub) s
             (filter (crcCheck (frame_data c ext have_rs stack frame))
                (inbound_records (frame_data c ext have_rs stack frame)
                   (bytesLeft_of c (fec_frame c (if have_rs then Some ext else None) stack frame))
                   0)))"
    using run_frame_eq [of c l ext have_rs stack s frame] by (simp only: valid_records_def)
  have 2: "frame_data c ext have_rs stack frame
       = drop (offsetof_data c) (fec_frame c (if have_rs then Some ext else None) stack frame)"
    by (simp add: frame_data_def)
  have 3: "bytesLeft_of c fr
       = RS41_DATA_LEN c
         + (if fr ! offsetof_extended_flag c = RS41_FLAG_EXTENDED c then RS41_XDATA_LEN c else 0)"
    by (simp add: bytesLeft_of_def)
  have 4: "inbound_records data bytesLeft offset
       = (if offset < bytesLeft \<and> offset + (unat (data ! (offset + 1)) + 4) \<le> bytesLeft
          then offset # inbound_records data bytesLeft (offset + (unat (data ! (offset + 1)) + 4))
          else [])"
    by (subst inbound_records.simps) (simp only: subframe_len_def)
  have 5: "crcCheck data sub \<longleftrightarrow>
        crc16 0x1021 0xFFFF (map (\<lambda>i. data ! (sub + 2 + i)) [0..<unat (data ! (sub + 1))])
          = ucast (data ! (sub + 2 + unat (data ! (sub + 1))))
            OR push_bit 8 (ucast (data ! (sub + 2 + (unat (data ! (sub + 1)) + 1))))"
    unfolding crcCheck_def Let_def subframe_len_def subframe_data_def
      CCITT_FALSE_POLY_def CCITT_FALSE_INIT_def ..
  from 1 2 3 4 5 show ?thesis by (intro conjI)
qed

text \<open>
  The theorem on the short frame, for a decoder with a data region of 18 bytes and without
  error correction: the records at the offsets 0, 6 and 11 lie within the bound, the one
  at offset 15 does not; the record at offset 6 has a wrong checksum, and the walk
  dispatches the records at the offsets 0 and 11, which are of types that leave the
  decoder and the telemetry record as they are.
\<close>

theorem run_frame_walks_records_witness:
  "frame_data rs41_short extern_rs_fails False [] frame_short
     = [0x7A, 0x02, 0x01, 0x02, 0x7C, 0x0E, 0x7C, 0x01, 0x09, 0xD9, 0x71,
        0x7E, 0x00, 0xFF, 0xFF, 0x76, 0xC8, 0x00]
   \<and> inbound_records (frame_data rs41_short extern_rs_fails False [] frame_short)
        (bytesLeft_of rs41_short (fec_frame rs41_short None [] frame_short)) 0 = [0, 6, 11]
   \<and> filter (crcCheck (frame_data rs41_short extern_rs_fails False [] frame_short))
        [0, 6, 11] = [0, 11]
   \<and> run_frame rs41_short rs41_layout_std extern_rs_fails False []
        (init rs41 rs41_blank, sonde_fresh) frame_short
       = Some (init rs41 rs41_blank, sonde_fresh)"
proof -
  let ?D = "[0x7A, 0x02, 0x01, 0x02, 0x7C, 0x0E, 0x7C, 0x01, 0x09, 0xD9, 0x71,
             0x7E, 0x00, 0xFF, 0xFF, 0x76, 0xC8, 0x00] :: u8 list"
  let ?s = "(init rs41 rs41_blank, sonde_fresh)"
  have d: "frame_data rs41_short extern_rs_fails False [] frame_short = ?D"
    by (rule frame_data_short)
  have b: "bytesLeft_of rs41_short (fec_frame rs41_short None [] frame_short) = 18"
    by (simp add: fec_frame_short bytesLeft_short)
  have u: "updateSondeData rs41_short rs41_layout_std extern_rs_fails a ?D 0 = a"
    "updateSondeData rs41_short rs41_layout_std extern_rs_fails a ?D 11 = a" for a
    by (rule updateSondeData_other; simp add: types_short rs41_short_consts)+
  have "run_frame rs41_short rs41_layout_std extern_rs_fails False [] ?s frame_short
      = Some (foldl (\<lambda>a sub. updateSondeData rs41_short rs41_layout_std extern_rs_fails a ?D sub)
               ?s (filter (crcCheck ?D) (inbound_records ?D 18 0)))"
    using run_frame_walks_records [of rs41_short rs41_layout_std extern_rs_fails False "[]" ?s
        frame_short]
    unfolding d by (simp add: b)
  then have "run_frame rs41_short rs41_layout_std extern_rs_fails False [] ?s frame_short = Some ?s"
    unfolding inbound_short valid_short by (simp add: u)
  then show ?thesis
    unfolding d b inbound_short valid_short by simp
qed

text \<open>
  C10.  The walk ends for every content of the data region, for every bound and from every
  offset: each round moves the offset forward by the declared payload length plus 4, so
  at most a quarter of the remaining bytes can start a record within the bound.
\<close>

theorem subframe_walk_terminates:
  "(\<exists>r. subframe_walk upd data bytesLeft offset acc = Some r)
   \<and> offset + 4 \<le> offset + (subframe_len data offset + 4)
   \<and> 4 * length (inbound_records data bytesLeft offset) \<le> bytesLeft - offset"
  by (simp add: subframe_walk_eq inbound_records_length)

section \<open>Claims about the error correction\<close>

text \<open>
  C3 (as amended).  In round \<open>b\<close> of its loop over the \<open>I\<close> blocks, \<^verbatim>\<open>rsCorrect\<close>
  calls the decoder with a codeword that holds, at position \<open>i\<close> below the chunk length,
  the frame byte at data offset \<open>I * i + b - 1\<close>, that is every \<open>I\<close>-th byte of the
  flag byte followed by the data region, starting at its offset \<open>b\<close>, and at position
  \<open>K + i\<close> the \<open>i\<close>-th of the \<open>T\<close> parity bytes of the block.  The chunk of a frame
  that is not extended has \<open>(L + 1) div I\<close> symbols, and the scratch block is zeroed once,
  before the first round: the positions between the chunk and \<open>K\<close> hold zeros in the
  first round, behind the data symbols, and in every later round what the decoder left
  there in the round before.  When the loop has ended, the frame holds at each of these
  data and parity places the symbol that the decoder returned for it, and every other
  byte of the frame is as it was.
\<close>

theorem rsCorrect_gathers_and_scatters:
  assumes "wf_rs_layout c" and "length frame = sizeof_RS41Frame c"
    and "length stack = RS41_REEDSOLOMON_N c"
    and "\<forall>blk. length (snd (dec blk)) = length blk"
  shows
    "(\<forall>b < RS41_REEDSOLOMON_INTERLEAVING c. \<forall>i < chunk_len_of c frame.
        rs_codeword c dec stack frame b ! i
          = frame ! (offsetof_data c + RS41_REEDSOLOMON_INTERLEAVING c * i + b - 1))
     \<and> (\<forall>b < RS41_REEDSOLOMON_INTERLEAVING c. \<forall>i < RS41_REEDSOLOMON_T c.
        rs_codeword c dec stack frame b ! (RS41_REEDSOLOMON_K c + i)
          = frame ! (offsetof_rs_checksum c + i + RS41_REEDSOLOMON_T c * b))
     \<and> (frame ! offsetof_extended_flag c \<noteq> RS41_FLAG_EXTENDED c \<longrightarrow>
        chunk_len_of c frame = (RS41_DATA_LEN c + 1) div RS41_REEDSOLOMON_INTERLEAVING c
        \<and> (\<forall>j. chunk_len_of c frame \<le> j \<and> j < RS41_REEDSOLOMON_K c \<longrightarrow>
              rs_codeword c dec stack frame 0 ! j = 0))
     \<and> (\<forall>b j. chunk_len_of c frame \<le> j \<and> j < RS41_REEDSOLOMON_K c \<longrightarrow>
        rs_codeword c dec stack frame (Suc b) ! j
          = snd (dec (rs_codeword c dec stack frame b)) ! j)
     \<and> (\<forall>b < RS41_REEDSOLOMON_INTERLEAVING c. \<forall>i < chunk_len_of c frame.
        snd (rsCorrect c dec stack frame)
            ! (offsetof_data c + RS41_REEDSOLOMON_INTERLEAVING c * i + b - 1)
          = snd (dec (rs_codeword c dec stack frame b)) ! i)
     \<and> (\<forall>b < RS41_REEDSOLOMON_INTERLEAVING c. \<forall>i < RS41_REEDSOLOMON_T c.
        snd (rsCorrect c dec stack frame)
            ! (offsetof_rs_checksum c + i + RS41_REEDSOLOMON_T c * b)
          = snd (dec (rs_codeword c dec stack frame b)) ! (RS41_REEDSOLOMON_K c + i))
     \<and> (\<forall>p. (\<forall>b < RS41_REEDSOLOMON_INTERLEAVING c. \<forall>i < chunk_len_of c frame.
               p \<noteq> offsetof_data c + RS41_REEDSOLOMON_INTERLEAVING c * i + b - 1)
           \<and> (\<forall>b < RS41_REEDSOLOMON_INTERLEAVING c. \<forall>i < RS41_REEDSOLOMON_T c.
               p \<noteq> offsetof_rs_checksum c + i + RS41_REEDSOLOMON_T c * b) \<longrightarrow>
        snd (rsCorrect c dec stack frame) ! p = frame ! p)
     \<and> length (snd (rsCorrect c dec stack frame)) = length frame"
  using assms by (rule rsCorrect_blocks)

text \<open>
  The theorem on the descrambled example frame with the status record and the decoder
  that leaves \<open>0xFF\<close> in every byte of the block.  The codeword of block 0 starts with
  the flag byte and has a zero at position 132, behind the chunk; the codeword of block 1
  starts with the first byte of the data region and has at position 132 the \<open>0xFF\<close> of
  the round before.  The frame has \<open>0xFF\<close> at the flag byte and at the first data byte
  afterwards, and its first byte, which belongs to no block, is as it was.
\<close>

theorem rsCorrect_gathers_and_scatters_witness:
  "rs_codeword rs41 decode_fill (replicate 255 0) plain_status 0 ! 0 = 0x0F
   \<and> rs_codeword rs41 decode_fill (replicate 255 0) plain_status 1 ! 0 = 0x79
   \<and> rs_codeword rs41 decode_fill (replicate 255 0) plain_status 0 ! 132 = 0
   \<and> rs_codeword rs41 decode_fill (replicate 255 0) plain_status 1 ! 132 = 0xFF
   \<and> snd (rsCorrect rs41 decode_fill (replicate 255 0) plain_status) ! 56 = 0xFF
   \<and> snd (rsCorrect rs41 decode_fill (replicate 255 0) plain_status) ! 57 = 0xFF
   \<and> snd (rsCorrect rs41 decode_fill (replicate 255 0) plain_status) ! 0 = plain_status ! 0"
proof -
  let ?cw = "rs_codeword rs41 decode_fill (replicate 255 0) plain_status"
  let ?out = "snd (rsCorrect rs41 decode_fill (replicate 255 0) plain_status)"
  have h: "length plain_status = sizeof_RS41Frame rs41"
    "length (replicate 255 (0::u8)) = RS41_REEDSOLOMON_N rs41"
    by (simp_all add: rs41_rs_consts length_plain)
  note t = rsCorrect_gathers_and_scatters [OF wf_rs41 h decoders_keep_length(1),
      unfolded rs41_rs_consts offsetof_data_rs41 chunk_len_plain_status]
  have l: "length (?cw b) = 255" for b
    using rs_round_lengths(3) [OF h(2) decoders_keep_length(1), of plain_status b]
    by (simp add: rs41_rs_consts)
  have fill: "snd (decode_fill (?cw b)) ! j = 0xFF" if "j < 255" for b j
    using that by (simp add: decode_fill_def l)
  note g1 = t [THEN conjunct1, rule_format]
  note g3 = t [THEN conjunct2, THEN conjunct2, THEN conjunct1]
  note g4 = t [THEN conjunct2, THEN conjunct2, THEN conjunct2, THEN conjunct1, rule_format]
  note s1 = t [THEN conjunct2, THEN conjunct2, THEN conjunct2, THEN conjunct2, THEN conjunct1,
      rule_format]
  note s3 = t [THEN conjunct2, THEN conjunct2, THEN conjunct2, THEN conjunct2, THEN conjunct2,
      THEN conjunct2, THEN conjunct1, rule_format]
  have 1: "?cw 0 ! 0 = 0x0F" using g1 [of 0 0] by (simp add: plain_status_bytes)
  have 2: "?cw 1 ! 0 = 0x79" using g1 [of 1 0] by (simp add: plain_status_bytes)
  have 3: "?cw 0 ! 132 = 0" using g3 by (simp add: plain_status_bytes)
  have "?cw (Suc 0) ! 132 = snd (decode_fill (?cw 0)) ! 132" using g4 [of 132 0] by simp
  then have 4: "?cw 1 ! 132 = 0xFF" by (simp add: fill)
  have 5: "?out ! 56 = 0xFF" using s1 [of 0 0] by (simp add: fill)
  have 6: "?out ! 57 = 0xFF" using s1 [of 1 0] by (simp add: fill)
  have 7: "?out ! 0 = plain_status ! 0" by (rule s3) (intro conjI allI impI; arith)
  from 1 2 3 4 5 6 7 show ?thesis by simp
qed

text \<open>
  C3 as stated fails.  The data region of the descrambled example frame starts with the
  bytes \<open>0x79\<close>, \<open>0x28\<close>, \<open>0x05\<close>.  Every second data symbol from data offset 0 on
  would be \<open>0x79\<close>, \<open>0x05\<close>, and a codeword padded at the front would start with a
  zero.  The codeword that \<^verbatim>\<open>rsCorrect\<close> hands to the decoder for block 0 starts with the
  flag byte \<open>0x0F\<close> and the byte at data offset 1, and its zeros follow the 132 symbols
  of the chunk, up to position 230.  With a decoder that leaves \<open>0xFF\<close> in the block,
  position 230 of the codeword of block 1 holds \<open>0xFF\<close>: there is no padding with zeros
  in the second round.
\<close>

theorem deinterleave_starts_at_flag_counterexample:
  "chunk_len_of rs41 plain_status = 132
   \<and> plain_status ! (offsetof_data rs41 + 0) = 0x79
   \<and> plain_status ! (offsetof_data rs41 + 2) = 0x05
   \<and> rs_codeword rs41 decode_fill (replicate 255 0) plain_status 0 ! 0 = 0x0F
   \<and> rs_codeword rs41 decode_fill (replicate 255 0) plain_status 0 ! 1 = 0x28
   \<and> rs_codeword rs41 decode_fill (replicate 255 0) plain_status 0 ! 230 = 0
   \<and> rs_codeword rs41 decode_fill (replicate 255 0) plain_status 1 ! 230 = 0xFF"
proof -
  let ?cw = "rs_codeword rs41 decode_fill (replicate 255 0) plain_status"
  have h: "length plain_status = sizeof_RS41Frame rs41"
    "length (replicate 255 (0::u8)) = RS41_REEDSOLOMON_N rs41"
    by (simp_all add: rs41_rs_consts length_plain)
  have b0: "0 < RS41_REEDSOLOMON_INTERLEAVING rs41" by (simp add: rs41_rs_consts)
  note c = rs_codeword_content(1) [OF wf_rs41 h decoders_keep_length(1) b0,
      unfolded rs41_rs_consts chunk_len_plain_status]
  have l: "length (?cw 0) = 255"
    using rs_round_lengths(3) [OF h(2) decoders_keep_length(1), of plain_status 0]
    by (simp add: rs41_rs_consts)
  have 1: "?cw 0 ! 0 = 0x0F" using c [of 0] by (simp add: plain_status_bytes)
  have 2: "?cw 0 ! 1 = 0x28" using c [of 1] by (simp add: plain_status_bytes)
  have r: "chunk_len_of rs41 plain_status \<le> 230" "230 < RS41_REEDSOLOMON_K rs41"
    by (simp_all add: chunk_len_plain_status rs41_rs_consts)
  have "plain_status ! offsetof_extended_flag rs41 \<noteq> RS41_FLAG_EXTENDED rs41"
    by (simp add: rs41_rs_consts plain_status_bytes)
  then have "rsBlock_initial rs41 (replicate 255 0) plain_status ! 230 = 0"
    by (rule rsBlock_initial_zero) (simp add: rs41_rs_consts)
  then have 3: "?cw 0 ! 230 = 0" using rs_codeword_padding(1) [OF r] by simp
  have "?cw (Suc 0) ! 230 = snd (decode_fill (?cw 0)) ! 230"
    by (rule rs_codeword_padding(2) [OF r])
  then have 4: "?cw 1 ! 230 = 0xFF" by (simp add: decode_fill_def l)
  have 5: "plain_status ! (offsetof_data rs41 + 0) = 0x79"
    "plain_status ! (offsetof_data rs41 + 2) = 0x05"
    by (simp_all add: offsetof_data_rs41 plain_status_bytes)
  from chunk_len_plain_status 1 2 3 4 5 show ?thesis by simp
qed

text \<open>
  C6 (as amended).  \<^verbatim>\<open>rsCorrect\<close> returns false exactly when the decoder reports a
  failure for the codeword of one of the blocks, whichever block that is.  But \<^verbatim>\<open>run\<close>
  does not use that result, and neither the frame nor the telemetry record has a place
  for it: the outcome of \<^verbatim>\<open>run\<close>, the decoder state and the records delivered, depends
  on the bytes that the Reed-Solomon decoder leaves in the block only, not on the status
  it returns.  No frame stops the run.  The walk over the sub-records of a frame runs on
  the bytes as \<^verbatim>\<open>rsCorrect\<close> has left them, and the run ends and delivers one record for
  each frame of the read.
\<close>

theorem run_ignores_decode_status:
  assumes "\<forall>blk. snd (dec' blk) = snd (correct_reed_solomon_decode ext blk)"
  shows "run c l (ext\<lparr>correct_reed_solomon_decode := dec'\<rparr>) have_rs stack fresh st buf
           = run c l ext have_rs stack fresh st buf
       \<and> (\<exists>st' out. run c l ext have_rs stack fresh st buf = Some (st', out)
             \<and> length out = length buf div sizeof_RS41Frame c)
       \<and> (fst (rsCorrect c dec' stack frame) \<longleftrightarrow>
            (\<forall>b < RS41_REEDSOLOMON_INTERLEAVING c.
               0 \<le> fst (dec' (rs_codeword c dec' stack frame b))))
       \<and> (\<exists>s'. run_frame c l ext True stack s frame = Some s'
             \<and> subframe_walk (updateSondeData c l ext)
                  (drop (offsetof_data c)
                     (snd (rsCorrect c (correct_reed_solomon_decode ext) stack (descramble frame))))
                  (bytesLeft_of c
                     (snd (rsCorrect c (correct_reed_solomon_decode ext) stack (descramble frame))))
                  0 s = Some s')"
proof -
  have "run c l (ext\<lparr>correct_reed_solomon_decode := dec'\<rparr>) have_rs stack fresh st buf
      = run c l ext have_rs stack fresh st buf"
    by (simp add: run_def run_frames_status_free [OF assms])
  moreover have "\<exists>st' out. run c l ext have_rs stack fresh st buf = Some (st', out)
      \<and> length out = length buf div sizeof_RS41Frame c"
    using run_frames_carry [of c l ext have_rs stack "(st, fresh)" "frames_of c buf"]
    unfolding run_def by auto
  moreover have "fst (rsCorrect c dec' stack frame) \<longleftrightarrow>
      (\<forall>b < RS41_REEDSOLOMON_INTERLEAVING c. 0 \<le> fst (dec' (rs_codeword c dec' stack frame b)))"
    by (rule rsCorrect_valid_iff)
  moreover have "\<exists>s'. run_frame c l ext True stack s frame = Some s'
      \<and> subframe_walk (updateSondeData c l ext)
           (drop (offsetof_data c)
              (snd (rsCorrect c (correct_reed_solomon_decode ext) stack (descramble frame))))
           (bytesLeft_of c
              (snd (rsCorrect c (correct_reed_solomon_decode ext) stack (descramble frame))))
           0 s = Some s'"
    unfolding run_frame_def fec_frame_def Let_def by (simp add: subframe_walk_eq)
  ultimately show ?thesis by (intro conjI)
qed

text \<open>
  The theorem for the example frame with the status record and the decoder that reports
  a failure for a codeword that starts with \<open>0x0F\<close>: the codeword of block 0 starts with
  the flag byte \<open>0x0F\<close> and that of block 1 with \<open>0x79\<close>, so the decoder fails on the
  first block only, and \<^verbatim>\<open>rsCorrect\<close> returns false.  The run with this decoder has
  the outcome of the run with the decoder that reports a failure for every block.
\<close>

theorem run_ignores_decode_status_witness:
  "run rs41 rs41_layout_std (extern_rs_fails\<lparr>correct_reed_solomon_decode := decode_fail_on_flag\<rparr>)
       True (replicate 255 0) sonde_fresh (init rs41 rs41_blank) frame_status
     = run rs41 rs41_layout_std extern_rs_fails True (replicate 255 0) sonde_fresh
         (init rs41 rs41_blank) frame_status
   \<and> fst (decode_fail_on_flag
            (rs_codeword rs41 decode_fail_on_flag (replicate 255 0) plain_status 0)) < 0
   \<and> 0 \<le> fst (decode_fail_on_flag
                 (rs_codeword rs41 decode_fail_on_flag (replicate 255 0) plain_status 1))
   \<and> \<not> fst (rsCorrect rs41 decode_fail_on_flag (replicate 255 0) plain_status)"
proof -
  let ?cw = "rs_codeword rs41 decode_fail_on_flag (replicate 255 0) plain_status"
  have hyp: "\<forall>blk. snd (decode_fail_on_flag blk)
      = snd (correct_reed_solomon_decode extern_rs_fails blk)"
    by (simp add: extern_rs_fails_def decode_fail_on_flag_def)
  have h: "length plain_status = sizeof_RS41Frame rs41"
    "length (replicate 255 (0::u8)) = RS41_REEDSOLOMON_N rs41"
    by (simp_all add: rs41_rs_consts length_plain)
  have b: "0 < RS41_REEDSOLOMON_INTERLEAVING rs41" "1 < RS41_REEDSOLOMON_INTERLEAVING rs41"
    by (simp_all add: rs41_rs_consts)
  have "?cw 0 ! 0 = 0x0F"
    using rs_codeword_content(1) [OF wf_rs41 h decoders_keep_length(2) b(1), of 0]
    by (simp add: chunk_len_plain_status rs41_rs_consts plain_status_bytes)
  then have 0: "fst (decode_fail_on_flag (?cw 0)) < 0" by (simp add: decode_fail_on_flag_def)
  have "?cw 1 ! 0 = 0x79"
    using rs_codeword_content(1) [OF wf_rs41 h decoders_keep_length(2) b(2), of 0]
    by (simp add: chunk_len_plain_status rs41_rs_consts plain_status_bytes)
  then have 1: "0 \<le> fst (decode_fail_on_flag (?cw 1))" by (simp add: decode_fail_on_flag_def)
  note t = run_ignores_decode_status [OF hyp, of rs41 rs41_layout_std True "replicate 255 0"
      sonde_fresh "init rs41 rs41_blank" frame_status plain_status]
  have r: "run rs41 rs41_layout_std
        (extern_rs_fails\<lparr>correct_reed_solomon_decode := decode_fail_on_flag\<rparr>)
        True (replicate 255 0) sonde_fresh (init rs41 rs41_blank) frame_status
      = run rs41 rs41_layout_std extern_rs_fails True (replicate 255 0) sonde_fresh
          (init rs41 rs41_blank) frame_status"
    by (rule t [THEN conjunct1])
  have e: "fst (rsCorrect rs41 decode_fail_on_flag (replicate 255 0) plain_status) \<longleftrightarrow>
      (\<forall>b < RS41_REEDSOLOMON_INTERLEAVING rs41. 0 \<le> fst (decode_fail_on_flag (?cw b)))"
    by (rule t [THEN conjunct2, THEN conjunct2, THEN conjunct1])
  have nv: "\<not> fst (rsCorrect rs41 decode_fail_on_flag (replicate 255 0) plain_status)"
  proof
    assume "fst (rsCorrect rs41 decode_fail_on_flag (replicate 255 0) plain_status)"
    with e have a: "\<forall>b < RS41_REEDSOLOMON_INTERLEAVING rs41.
        0 \<le> fst (decode_fail_on_flag (?cw b))" by (rule iffD1)
    from a [rule_format, OF b(1)] 0 show False by arith
  qed
  from r 0 1 nv show ?thesis by (intro conjI)
qed

text \<open>
  C6 as stated fails.  On the example frame with the status record the decoder that fails
  makes \<^verbatim>\<open>rsCorrect\<close> return false and the one that succeeds makes it return true, and
  the two runs have the same outcome: the record of the frame is delivered, with frame
  counter 5, and nothing in the outcome tells that the blocks were not corrected.
\<close>

theorem uncorrected_flag_not_recorded_counterexample:
  "\<not> fst (rsCorrect rs41 (correct_reed_solomon_decode extern_rs_fails) (replicate 255 0)
           (descramble frame_status))
   \<and> fst (rsCorrect rs41 (correct_reed_solomon_decode extern_rs_succeeds) (replicate 255 0)
           (descramble frame_status))
   \<and> run rs41 rs41_layout_std extern_rs_fails True (replicate 255 0) sonde_fresh
         (init rs41 rs41_blank) frame_status
       = run rs41 rs41_layout_std extern_rs_succeeds True (replicate 255 0) sonde_fresh
           (init rs41 rs41_blank) frame_status
   \<and> map_option (\<lambda>r. map seq (snd r))
         (run rs41 rs41_layout_std extern_rs_fails True (replicate 255 0) sonde_fresh
            (init rs41 rs41_blank) frame_status) = Some [5]"
proof -
  have f: "\<forall>blk. fst (correct_reed_solomon_decode extern_rs_fails blk) < 0"
    by (simp add: extern_rs_fails_def)
  have s: "\<forall>blk. 0 \<le> fst (correct_reed_solomon_decode extern_rs_succeeds blk)"
    by (simp add: extern_rs_succeeds_def extern_rs_fails_def)
  have i: "0 < RS41_REEDSOLOMON_INTERLEAVING rs41" by (simp add: rs41_def)
  have b: "\<forall>blk. snd ((\<lambda>blk. (0 :: int, blk)) blk)
      = snd (correct_reed_solomon_decode extern_rs_fails blk)"
    by (simp add: extern_rs_fails_def)
  have "run rs41 rs41_layout_std extern_rs_succeeds True (replicate 255 0) sonde_fresh
         (init rs41 rs41_blank) frame_status
      = run rs41 rs41_layout_std extern_rs_fails True (replicate 255 0) sonde_fresh
         (init rs41 rs41_blank) frame_status"
    unfolding run_def extern_rs_succeeds_def by (rule run_frames_status_free [OF b])
  with rsCorrect_valid_all_fail [OF f i] rsCorrect_valid_none_fail [OF s] run_one_frame_seq
  show ?thesis by simp
qed

section \<open>Claims about the telemetry record\<close>

text \<open>
  C8 (as amended).  The record is constructed once for each call of \<^verbatim>\<open>run\<close>, before the
  loop over the frames of the read, and the record that the handler gets for a frame is
  that one record as the frames so far have left it.  The fields that a status record
  writes (the calibration flag, the serial, the burst-kill value and the frame counter)
  keep, in a frame without a checksum-valid status record, the values they had after the
  frame before, and the values of the fresh record only in the first frame of the call;
  the same holds for the position and velocity fields and a frame without a
  checksum-valid position record.
\<close>

theorem run_record_is_carried_over:
  "\<exists>st' out. run c l ext have_rs stack fresh st buf = Some (st', out)
     \<and> length out = length buf div sizeof_RS41Frame c
     \<and> (\<forall>k < length buf div sizeof_RS41Frame c.
          (\<not> has_info c ext have_rs stack (frames_of c buf ! k) \<longrightarrow>
             info_part (out ! k) = info_part (if k = 0 then fresh else out ! (k - 1)))
        \<and> (\<not> has_gpspos c ext have_rs stack (frames_of c buf ! k) \<longrightarrow>
             gps_part (out ! k) = gps_part (if k = 0 then fresh else out ! (k - 1))))"
  using run_frames_carry [of c l ext have_rs stack "(st, fresh)" "frames_of c buf"]
  by (simp only: run_def length_frames_of snd_conv)

text \<open>
  The theorem on a read of the two example frames: the second frame has no valid record,
  and its record has the status fields of the record of the first frame; the first frame
  has no position record, and its position fields are those of the fresh record.
\<close>

theorem run_record_is_carried_over_witness:
  "\<exists>st' out. run rs41 rs41_layout_std extern_rs_fails True (replicate 255 0) sonde_fresh
                 (init rs41 rs41_blank) (frame_status @ frame_blank) = Some (st', out)
     \<and> length out = 2
     \<and> info_part (out ! 1) = info_part (out ! 0)
     \<and> gps_part (out ! 0) = gps_part sonde_fresh"
proof -
  have n: "length (frame_status @ frame_blank) div sizeof_RS41Frame rs41 = 2"
    by (simp add: length_frame_status length_frame_blank rs41_def)
  from run_record_is_carried_over [of rs41 rs41_layout_std extern_rs_fails True "replicate 255 0"
      sonde_fresh "init rs41 rs41_blank" "frame_status @ frame_blank"]
  obtain st' out where
    r: "run rs41 rs41_layout_std extern_rs_fails True (replicate 255 0) sonde_fresh
          (init rs41 rs41_blank) (frame_status @ frame_blank) = Some (st', out)"
    and len: "length out = 2"
    and car: "\<forall>k < 2.
          (\<not> has_info rs41 extern_rs_fails True (replicate 255 0)
                ([frame_status, frame_blank] ! k) \<longrightarrow>
             info_part (out ! k) = info_part (if k = 0 then sonde_fresh else out ! (k - 1)))
        \<and> (\<not> has_gpspos rs41 extern_rs_fails True (replicate 255 0)
                ([frame_status, frame_blank] ! k) \<longrightarrow>
             gps_part (out ! k) = gps_part (if k = 0 then sonde_fresh else out ! (k - 1)))"
    unfolding n frames_of_examples by blast
  from car [rule_format, of 1] have "info_part (out ! 1) = info_part (out ! 0)"
    using has_examples by simp
  moreover from car [rule_format, of 0] have "gps_part (out ! 0) = gps_part sonde_fresh"
    using has_examples by simp
  ultimately show ?thesis using r len by blast
qed

text \<open>
  C8 as stated fails.  The frame counter is not one of the fields that the claim exempts,
  the fresh record has 0 there, and the second frame of the read has no valid record; its
  record still has the frame counter 5 of the first frame.
\<close>

theorem record_not_fresh_per_frame_counterexample:
  "seq sonde_fresh = 0
   \<and> valid_records rs41 extern_rs_fails True (replicate 255 0) frame_blank = []
   \<and> map_option (\<lambda>r. map seq (snd r))
        (run rs41 rs41_layout_std extern_rs_fails True (replicate 255 0) sonde_fresh
           (init rs41 rs41_blank) (frame_status @ frame_blank)) = Some [5, 5]"
proof -
  have "seq sonde_fresh = 0" by (simp add: sonde_fresh_def)
  then show ?thesis by (simp add: valid_records_examples run_two_frames_seq)
qed


end
